theory Spec2Isabelle
  imports Main "HOL-Library.Word" "HOL-Library.Log_Nat" "HOL-Library.Signed_Division"
begin

section \<open>The header \<^verbatim>\<open>cudf/fixed_point/fixed_point.hpp\<close>\<close>

text \<open>
  The header defines \<^verbatim>\<open>fixed_point<Rep, Rad>\<close>: a representation value of a signed
  integer type \<^verbatim>\<open>Rep\<close> (\<^verbatim>\<open>int32_t\<close> or \<^verbatim>\<open>int64_t\<close>), a run-time scale (an
  \<^verbatim>\<open>int32_t\<close> behind \<^verbatim>\<open>weak_typedef\<close>) and a compile-time radix.

  Machine integers are words: \<^verbatim>\<open>Rep\<close> is \<open>'r word\<close>, the scale is \<open>32 word\<close>, signed
  comparisons read them through \<open>sint\<close>, and \<open>+\<close>, \<open>-\<close>, \<open>*\<close> wrap around (the release
  configuration of the header: the overflow assertions are compiled in only under
  \<^verbatim>\<open>__CUDACC_DEBUG__\<close>). The template parameter \<^verbatim>\<open>Rad\<close> is an explicit first argument.

  Every shift of the header goes through \<^verbatim>\<open>std::pow\<close>, which returns a \<^verbatim>\<open>double\<close>, so
  an integer operand is converted to \<^verbatim>\<open>double\<close>, divided or multiplied there, and cast
  back. The model therefore carries IEEE-754 binary64 values: finite ones as the rational
  number they denote, rounded to nearest (ties to even) after every operation.

  Results are of type \<open>error + 'a\<close>: a failed \<^verbatim>\<open>assert\<close> of a shift primitive is
  \<open>AssertionFailure\<close>; a division by zero, the division \<open>MIN / -1\<close> and a cast of a
  \<^verbatim>\<open>double\<close> that the target integer type cannot hold are \<open>UndefinedBehaviour\<close>.
\<close>

subsection \<open>Scale and radix\<close>

type_synonym scale_type = "32 word"

datatype Radix = BASE_2 | BASE_10

text \<open>\<^verbatim>\<open>static_cast<int32_t>(Rad)\<close>\<close>

fun radix_int :: "Radix \<Rightarrow> int" where
  "radix_int BASE_2 = 2"
| "radix_int BASE_10 = 10"

text \<open>\<^verbatim>\<open>detail::negate\<close>: \<^verbatim>\<open>scale_type{-scale}\<close> on \<^verbatim>\<open>int32_t\<close>.\<close>

definition negate :: "scale_type \<Rightarrow> scale_type" where
  "negate scale = - scale"

subsection \<open>Binary64 arithmetic\<close>

text \<open>
  A \<^verbatim>\<open>double\<close> is a finite value, an infinity with its sign (\<open>True\<close> for negative) or
  a NaN. The sign of a zero is not kept: the header casts results to integers, where both
  zeros are \<open>0\<close>, and its only divisor is \<^verbatim>\<open>std::pow(Rad, scale)\<close> with a positive scale.
\<close>

datatype double = Finite rat | Infinity bool | NaN

text \<open>\<open>ilog2 x\<close> is the binary exponent \<open>\<lfloor>log\<^sub>2 x\<rfloor>\<close> of a positive rational.\<close>

definition ilog2 :: "rat \<Rightarrow> int" where
  "ilog2 x = (let (n, d) = quotient_of x; k = bitlen n - bitlen d
              in if of_int d * 2 powi k \<le> (of_int n :: rat) then k else k - 1)"

definition round_half_even :: "rat \<Rightarrow> int" where
  "round_half_even x =
     (let f = \<lfloor>x\<rfloor>; r = x - of_int f
      in if r < 1 / 2 then f else if 1 / 2 < r then f + 1
         else if even f then f else f + 1)"

text \<open>
  Rounding to binary64: 53 significant bits, least exponent \<open>-1074\<close> (the subnormal
  grid), overflow to infinity from \<open>2 ^ 1024\<close> on. \<open>double_exponent x\<close> is the exponent
  of the last bit of the significand at \<open>x\<close>.
\<close>

definition double_exponent :: "rat \<Rightarrow> int" where
  "double_exponent x = max (ilog2 \<bar>x\<bar> - 52) (- 1074)"

definition round_to_double :: "rat \<Rightarrow> double" where
  "round_to_double x =
     (if x = 0 then Finite 0
      else let e = double_exponent x;
               y = of_int (round_half_even (\<bar>x\<bar> / 2 powi e)) * 2 powi e
           in if 2 ^ 1024 \<le> y then Infinity (x < 0) else Finite (sgn x * y))"

fun double_neg :: "double \<Rightarrow> double" where
  "double_neg (Finite a) = Finite (- a)"
| "double_neg (Infinity s) = Infinity (\<not> s)"
| "double_neg NaN = NaN"

fun double_mult :: "double \<Rightarrow> double \<Rightarrow> double" where
  "double_mult (Finite a) (Finite b) = round_to_double (a * b)"
| "double_mult (Finite a) (Infinity s) = (if a = 0 then NaN else Infinity (s \<noteq> (a < 0)))"
| "double_mult (Infinity s) (Finite b) = (if b = 0 then NaN else Infinity (s \<noteq> (b < 0)))"
| "double_mult (Infinity s) (Infinity t) = Infinity (s \<noteq> t)"
| "double_mult NaN _ = NaN"
| "double_mult _ NaN = NaN"

fun double_div :: "double \<Rightarrow> double \<Rightarrow> double" where
  "double_div (Finite a) (Finite b) =
     (if b = 0 then (if a = 0 then NaN else Infinity (a < 0)) else round_to_double (a / b))"
| "double_div (Finite a) (Infinity s) = Finite 0"
| "double_div (Infinity s) (Finite b) = Infinity (s \<noteq> (b < 0))"
| "double_div (Infinity s) (Infinity t) = NaN"
| "double_div NaN _ = NaN"
| "double_div _ NaN = NaN"

text \<open>
  \<^verbatim>\<open>std::pow(static_cast<int32_t>(Rad), static_cast<int32_t>(scale))\<close>: both arguments
  are promoted to \<^verbatim>\<open>double\<close> exactly, and the result is the power rounded to binary64.
  Where the power is a binary64 value (base 2 up to \<open>2\<^bsup>1023\<^esup>\<close>, base 10 up to \<open>10\<^bsup>22\<^esup>\<close>)
  that is the value every implementation returns; for the other powers an implementation
  may be one unit in the last place away from the correctly rounded result taken here.
\<close>

definition std_pow :: "Radix \<Rightarrow> scale_type \<Rightarrow> double" where
  "std_pow Rad scale = round_to_double (of_int (radix_int Rad) powi sint scale)"

text \<open>The conversion of a signed integer to \<^verbatim>\<open>double\<close>.\<close>

definition int_to_double :: "'a::len word \<Rightarrow> double" where
  "int_to_double v = round_to_double (of_int (sint v))"

definition truncate_rat :: "rat \<Rightarrow> int" where
  "truncate_rat x = (if 0 \<le> x then \<lfloor>x\<rfloor> else \<lceil>x\<rceil>)"

datatype error = AssertionFailure | UndefinedBehaviour

text \<open>
  \<^verbatim>\<open>static_cast<T>\<close> of a \<^verbatim>\<open>double\<close> to a signed integer type: the fraction is
  discarded; the behaviour is undefined when the truncated value is not representable.
\<close>

fun double_to_int :: "double \<Rightarrow> error + 'a::len word" where
  "double_to_int (Finite x) =
     (let t = truncate_rat x
      in if - (2 ^ (LENGTH('a) - 1)) \<le> t \<and> t < 2 ^ (LENGTH('a) - 1)
         then Inr (word_of_int t) else Inl UndefinedBehaviour)"
| "double_to_int (Infinity s) = Inl UndefinedBehaviour"
| "double_to_int NaN = Inl UndefinedBehaviour"

subsection \<open>Shift primitives\<close>

text \<open>
  \<^verbatim>\<open>detail::right_shift\<close>, \<^verbatim>\<open>detail::left_shift\<close> and \<^verbatim>\<open>detail::shift\<close> for an
  integral \<^verbatim>\<open>T\<close> (the operand is converted to \<^verbatim>\<open>double\<close> by the usual arithmetic
  conversions), and, with the suffix \<open>_fp\<close>, for \<^verbatim>\<open>T = double\<close>.
\<close>

definition right_shift :: "Radix \<Rightarrow> 'a::len word \<Rightarrow> scale_type \<Rightarrow> error + double" where
  "right_shift Rad val scale =
     (if 0 <s scale then Inr (double_div (int_to_double val) (std_pow Rad scale))
      else Inl AssertionFailure)"

definition left_shift :: "Radix \<Rightarrow> 'a::len word \<Rightarrow> scale_type \<Rightarrow> error + double" where
  "left_shift Rad val scale =
     (if scale <s 0 then Inr (double_mult (int_to_double val) (std_pow Rad (negate scale)))
      else Inl AssertionFailure)"

definition shift :: "Radix \<Rightarrow> 'a::len word \<Rightarrow> scale_type \<Rightarrow> error + 'a word" where
  "shift Rad val scale =
     (if scale = 0 then Inr val
      else if 0 <s scale then
        (case right_shift Rad val scale of Inl e \<Rightarrow> Inl e | Inr d \<Rightarrow> double_to_int d)
      else
        (case left_shift Rad val scale of Inl e \<Rightarrow> Inl e | Inr d \<Rightarrow> double_to_int d))"

definition right_shift_fp :: "Radix \<Rightarrow> double \<Rightarrow> scale_type \<Rightarrow> error + double" where
  "right_shift_fp Rad val scale =
     (if 0 <s scale then Inr (double_div val (std_pow Rad scale)) else Inl AssertionFailure)"

definition left_shift_fp :: "Radix \<Rightarrow> double \<Rightarrow> scale_type \<Rightarrow> error + double" where
  "left_shift_fp Rad val scale =
     (if scale <s 0 then Inr (double_mult val (std_pow Rad (negate scale)))
      else Inl AssertionFailure)"

definition shift_fp :: "Radix \<Rightarrow> double \<Rightarrow> scale_type \<Rightarrow> error + double" where
  "shift_fp Rad val scale =
     (if scale = 0 then Inr val
      else if 0 <s scale then right_shift_fp Rad val scale
      else left_shift_fp Rad val scale)"

subsection \<open>The value type\<close>

record 'r fixed_point =
  fp_value :: 'r
  fp_scale :: scale_type

text \<open>
  The constructor from an integral scalar \<^verbatim>\<open>T\<close> and a scale:
  \<^verbatim>\<open>_value{static_cast<Rep>(detail::shift<Rad>(value, scale))}, _scale{scale}\<close>.
\<close>

definition make_fixed_point ::
  "Radix \<Rightarrow> 't::len word \<Rightarrow> scale_type \<Rightarrow> error + 'r::len word fixed_point" where
  "make_fixed_point Rad val scale =
     (case shift Rad val scale of
        Inl e \<Rightarrow> Inl e
      | Inr v \<Rightarrow> Inr \<lparr>fp_value = scast v, fp_scale = scale\<rparr>)"

text \<open>The constructor from \<^verbatim>\<open>scaled_integer<Rep>\<close>: no shift.\<close>

definition from_scaled_integer :: "'r \<Rightarrow> scale_type \<Rightarrow> 'r fixed_point" where
  "from_scaled_integer v s = \<lparr>fp_value = v, fp_scale = s\<rparr>"

text \<open>
  The explicit conversion operator
  \<^verbatim>\<open>detail::shift<Rad>(static_cast<U>(_value), detail::negate(_scale))\<close>, for an integral
  \<^verbatim>\<open>U\<close> and for \<^verbatim>\<open>U = double\<close> (which is also \<^verbatim>\<open>get()\<close>).
\<close>

definition to_integral :: "Radix \<Rightarrow> 'r::len word fixed_point \<Rightarrow> error + 'u::len word" where
  "to_integral Rad x = shift Rad (scast (fp_value x)) (negate (fp_scale x))"

definition to_double :: "Radix \<Rightarrow> 'r::len word fixed_point \<Rightarrow> error + double" where
  "to_double Rad x = shift_fp Rad (int_to_double (fp_value x)) (negate (fp_scale x))"

subsection \<open>Binary operators\<close>

text \<open>
  \<^verbatim>\<open>rhsv\<close>, \<^verbatim>\<open>lhsv\<close> and \<^verbatim>\<open>scale\<close> of \<^verbatim>\<open>operator+\<close>, \<^verbatim>\<open>operator-\<close> and
  \<^verbatim>\<open>operator==\<close>. The difference of the scales is an \<^verbatim>\<open>int32_t\<close> subtraction.
\<close>

definition rhsv :: "Radix \<Rightarrow> 'r::len word fixed_point \<Rightarrow> 'r word fixed_point \<Rightarrow> error + 'r word" where
  "rhsv Rad lhs rhs =
     (if fp_scale rhs <s fp_scale lhs
      then shift Rad (fp_value rhs) (fp_scale lhs - fp_scale rhs)
      else Inr (fp_value rhs))"

definition lhsv :: "Radix \<Rightarrow> 'r::len word fixed_point \<Rightarrow> 'r word fixed_point \<Rightarrow> error + 'r word" where
  "lhsv Rad lhs rhs =
     (if fp_scale lhs <s fp_scale rhs
      then shift Rad (fp_value lhs) (fp_scale rhs - fp_scale lhs)
      else Inr (fp_value lhs))"

definition result_scale :: "'r fixed_point \<Rightarrow> 'r fixed_point \<Rightarrow> scale_type" where
  "result_scale lhs rhs = (if fp_scale rhs <s fp_scale lhs then fp_scale lhs else fp_scale rhs)"

definition op_plus ::
  "Radix \<Rightarrow> 'r::len word fixed_point \<Rightarrow> 'r word fixed_point \<Rightarrow> error + 'r word fixed_point" where
  "op_plus Rad lhs rhs =
     (case rhsv Rad lhs rhs of
        Inl e \<Rightarrow> Inl e
      | Inr r \<Rightarrow>
          (case lhsv Rad lhs rhs of
             Inl e \<Rightarrow> Inl e
           | Inr l \<Rightarrow> Inr (from_scaled_integer (l + r) (result_scale lhs rhs))))"

definition op_minus ::
  "Radix \<Rightarrow> 'r::len word fixed_point \<Rightarrow> 'r word fixed_point \<Rightarrow> error + 'r word fixed_point" where
  "op_minus Rad lhs rhs =
     (case rhsv Rad lhs rhs of
        Inl e \<Rightarrow> Inl e
      | Inr r \<Rightarrow>
          (case lhsv Rad lhs rhs of
             Inl e \<Rightarrow> Inl e
           | Inr l \<Rightarrow> Inr (from_scaled_integer (l - r) (result_scale lhs rhs))))"

definition op_times ::
  "Radix \<Rightarrow> 'r::len word fixed_point \<Rightarrow> 'r word fixed_point \<Rightarrow> 'r word fixed_point" where
  "op_times Rad lhs rhs =
     from_scaled_integer (fp_value lhs * fp_value rhs) (fp_scale lhs + fp_scale rhs)"

text \<open>\<^verbatim>\<open>std::numeric_limits<Rep>::max()\<close> and \<^verbatim>\<open>min()\<close>.\<close>

definition rep_max :: "'a::len word" where
  "rep_max = word_of_int (2 ^ (LENGTH('a) - 1) - 1)"

definition rep_min :: "'a::len word" where
  "rep_min = word_of_int (- (2 ^ (LENGTH('a) - 1)))"

text \<open>
  Signed division of \<^verbatim>\<open>Rep\<close>: the quotient truncated towards zero (\<open>sdiv\<close> on \<open>int\<close>).
  In \<^verbatim>\<open>operator/\<close> the division \<^verbatim>\<open>lhs._value / rhs._value\<close> is undefined behaviour for a
  zero divisor and for \<open>MIN / -1\<close>, whose quotient is not a value of \<^verbatim>\<open>Rep\<close> (the
  processor traps); the assertion on \<^verbatim>\<open>division_overflow\<close> is compiled in only under
  \<^verbatim>\<open>__CUDACC_DEBUG__\<close>.
\<close>

definition word_sdiv :: "'a::len word \<Rightarrow> 'a word \<Rightarrow> 'a word" where
  "word_sdiv a b = word_of_int (sint a sdiv sint b)"

definition op_div ::
  "Radix \<Rightarrow> 'r::len word fixed_point \<Rightarrow> 'r word fixed_point \<Rightarrow> error + 'r word fixed_point" where
  "op_div Rad lhs rhs =
     (if fp_value rhs = 0 then Inl UndefinedBehaviour
      else if fp_value lhs = rep_min \<and> fp_value rhs = - 1 then Inl UndefinedBehaviour
      else Inr (from_scaled_integer (word_sdiv (fp_value lhs) (fp_value rhs))
                  (fp_scale lhs - fp_scale rhs)))"

definition op_eq :: "Radix \<Rightarrow> 'r::len word fixed_point \<Rightarrow> 'r word fixed_point \<Rightarrow> error + bool" where
  "op_eq Rad lhs rhs =
     (case rhsv Rad lhs rhs of
        Inl e \<Rightarrow> Inl e
      | Inr r \<Rightarrow> (case lhsv Rad lhs rhs of Inl e \<Rightarrow> Inl e | Inr l \<Rightarrow> Inr (r = l)))"

text \<open>
  \<^verbatim>\<open>operator++\<close>: \<^verbatim>\<open>*this = *this + fixed_point<Rep, Rad>{1, scale_type{_scale}}\<close>; the
  literal \<^verbatim>\<open>1\<close> is an \<^verbatim>\<open>int\<close>, so the constructor from a scalar is used.
\<close>

definition pre_increment :: "Radix \<Rightarrow> 'r::len word fixed_point \<Rightarrow> error + 'r word fixed_point" where
  "pre_increment Rad x =
     (case make_fixed_point Rad (1 :: 32 word) (fp_scale x) of
        Inl e \<Rightarrow> Inl e
      | Inr one \<Rightarrow> op_plus Rad x one)"

subsection \<open>Overflow predicates\<close>

definition addition_overflow :: "'a::len word \<Rightarrow> 'a word \<Rightarrow> bool" where
  "addition_overflow lhs rhs =
     (if 0 <s rhs then (rep_max - rhs) <s lhs else lhs <s (rep_min - rhs))"

definition subtraction_overflow :: "'a::len word \<Rightarrow> 'a word \<Rightarrow> bool" where
  "subtraction_overflow lhs rhs =
     (if 0 <s rhs then lhs <s (rep_min + rhs) else (rep_max + rhs) <s lhs)"

definition division_overflow :: "'a::len word \<Rightarrow> 'a word \<Rightarrow> bool" where
  "division_overflow lhs rhs = (lhs = rep_min \<and> rhs = - 1)"

definition multiplication_overflow :: "'a::len word \<Rightarrow> 'a word \<Rightarrow> bool" where
  "multiplication_overflow lhs rhs =
     (if 0 <s rhs then word_sdiv rep_max rhs <s lhs \<or> lhs <s word_sdiv rep_min rhs
      else if rhs <s - 1 then word_sdiv rep_min rhs <s lhs \<or> lhs <s word_sdiv rep_max rhs
      else rhs = - 1 \<and> lhs = rep_min)"

subsection \<open>Notions of the specification\<close>

text \<open>
  The rational number a value denotes, \<open>value \<times> Radix\<^bsup>scale\<^esup>\<close> (section 3 of the
  specification).
\<close>

definition rational_value :: "Radix \<Rightarrow> 'r::len word fixed_point \<Rightarrow> rat" where
  "rational_value Rad x =
     of_int (sint (fp_value x)) * of_int (radix_int Rad) powi sint (fp_scale x)"

text \<open>The unit in the last place of binary64 at \<open>x\<close>.\<close>

definition ulp :: "rat \<Rightarrow> rat" where
  "ulp x = 2 powi double_exponent x"

text \<open>\<open>fits w z\<close>: the integer \<open>z\<close> is a value of the signed \<open>w\<close>-bit type.\<close>

definition fits :: "nat \<Rightarrow> int \<Rightarrow> bool" where
  "fits w z \<longleftrightarrow> - (2 ^ (w - 1)) \<le> z \<and> z < 2 ^ (w - 1)"

text \<open>
  The right shift of the specification (sections 4.2 and 4.5) on an integer operand:
  \<open>v / R\<^sup>n\<close> in the operand's own arithmetic, the integer division truncated towards zero.
\<close>

definition spec_right_shift :: "Radix \<Rightarrow> 'r::len word \<Rightarrow> nat \<Rightarrow> 'r word" where
  "spec_right_shift Rad v n = word_of_int (sint v sdiv radix_int Rad ^ n)"

text \<open>
  The alignment rule of the specification for \<open>+\<close> and \<open>-\<close> (section 4.5): the result
  scale is the larger scale \<open>s\<close>; each operand whose scale is below \<open>s\<close> has its value
  right-shifted by \<open>s - operand_scale\<close> digits, the other operand is left unchanged; the
  pair of the combined values and \<open>s\<close> is installed as it is.
\<close>

definition spec_scale :: "'r fixed_point \<Rightarrow> 'r fixed_point \<Rightarrow> scale_type" where
  "spec_scale a b = (if fp_scale a <=s fp_scale b then fp_scale b else fp_scale a)"

definition spec_rescale :: "Radix \<Rightarrow> 'r::len word fixed_point \<Rightarrow> scale_type \<Rightarrow> 'r word" where
  "spec_rescale Rad x s =
     (if fp_scale x <s s
      then spec_right_shift Rad (fp_value x) (nat (sint s - sint (fp_scale x)))
      else fp_value x)"

definition spec_plus ::
  "Radix \<Rightarrow> 'r::len word fixed_point \<Rightarrow> 'r word fixed_point \<Rightarrow> 'r word fixed_point" where
  "spec_plus Rad a b =
     \<lparr>fp_value = spec_rescale Rad a (spec_scale a b) + spec_rescale Rad b (spec_scale a b),
      fp_scale = spec_scale a b\<rparr>"

definition spec_minus ::
  "Radix \<Rightarrow> 'r::len word fixed_point \<Rightarrow> 'r word fixed_point \<Rightarrow> 'r word fixed_point" where
  "spec_minus Rad a b =
     \<lparr>fp_value = spec_rescale Rad a (spec_scale a b) - spec_rescale Rad b (spec_scale a b),
      fp_scale = spec_scale a b\<rparr>"

section \<open>Facts about rounding to binary64\<close>

subsection \<open>The binary exponent and rounding to an integer\<close>

lemma ilog2_bounds:
  assumes "0 < x"
  shows "2 powi ilog2 x \<le> x" and "x < 2 powi (ilog2 x + 1)"
proof -
  obtain n d where q: "quotient_of x = (n, d)" by (cases "quotient_of x")
  have d: "0 < d" using quotient_of_denom_pos[OF q] .
  have x: "x = of_int n / of_int d" using quotient_of_div[OF q] .
  have n: "0 < n" using assms d x by (simp add: zero_less_divide_iff)
  define a where "a = bitlen n"
  define b where "b = bitlen d"
  have a1: "1 \<le> a" using n by (simp add: a_def bitlen_ge_iff_power)
  have b1: "1 \<le> b" using d by (simp add: b_def bitlen_ge_iff_power)
  have "2 ^ nat (a - 1) \<le> n" "n < 2 ^ nat a"
    using bitlen_bounds[OF n] by (simp_all add: a_def)
  then have "rat_of_int (2 ^ nat (a - 1)) \<le> of_int n" "rat_of_int n < of_int (2 ^ nat a)"
    by (simp_all only: of_int_le_iff of_int_less_iff)
  then have nl: "(2::rat) powi (a - 1) \<le> of_int n" and nu: "of_int n < (2::rat) powi a"
    using a1 by (simp_all add: power_int_nonneg_exp)
  have "2 ^ nat (b - 1) \<le> d" "d < 2 ^ nat b"
    using bitlen_bounds[OF d] by (simp_all add: b_def)
  then have "rat_of_int (2 ^ nat (b - 1)) \<le> of_int d" "rat_of_int d < of_int (2 ^ nat b)"
    by (simp_all only: of_int_le_iff of_int_less_iff)
  then have dl: "(2::rat) powi (b - 1) \<le> of_int d" and du: "of_int d < (2::rat) powi b"
    using b1 by (simp_all add: power_int_nonneg_exp)
  have dpos: "(0::rat) < of_int d" using d by simp
  define k where "k = a - b"
  have il: "ilog2 x = (if of_int d * 2 powi k \<le> (of_int n :: rat) then k else k - 1)"
    by (simp add: ilog2_def q k_def a_def b_def Let_def)
  have pk: "(2::rat) powi a = 2 powi (k + 1) * 2 powi (b - 1)"
    "(2::rat) powi (a - 1) = 2 powi (k - 1) * 2 powi b"
    by (simp_all add: k_def flip: power_int_add)
  have pp: "\<And>j. (0::rat) < 2 powi j" by simp
  show "2 powi ilog2 x \<le> x"
  proof (cases "of_int d * 2 powi k \<le> (of_int n :: rat)")
    case True
    then have "2 powi k \<le> x" using dpos by (simp add: x pos_le_divide_eq mult.commute)
    then show ?thesis using True il by simp
  next
    case False
    have "2 powi (k - 1) * rat_of_int d \<le> 2 powi (k - 1) * 2 powi b"
      using du pp[of "k - 1"] by (simp add: mult_le_cancel_left_pos less_imp_le)
    also have "\<dots> \<le> of_int n" using nl pk(2) by simp
    finally have "2 powi (k - 1) \<le> x" using dpos by (simp add: x pos_le_divide_eq)
    then show ?thesis using False il by simp
  qed
  show "x < 2 powi (ilog2 x + 1)"
  proof (cases "of_int d * 2 powi k \<le> (of_int n :: rat)")
    case True
    have "of_int n < (2::rat) powi (k + 1) * 2 powi (b - 1)" using nu pk(1) by simp
    also have "\<dots> \<le> 2 powi (k + 1) * of_int d"
      using dl pp[of "k + 1"] by (simp add: mult_le_cancel_left_pos)
    finally have "x < 2 powi (k + 1)" using dpos by (simp add: x pos_divide_less_eq)
    then show ?thesis using True il by simp
  next
    case False
    then have "x < 2 powi k" using dpos by (simp add: x pos_divide_less_eq mult.commute)
    then show ?thesis using False il by simp
  qed
qed

lemma rhe_ge: "of_int n \<le> x \<Longrightarrow> n \<le> round_half_even x"
proof -
  assume "of_int n \<le> x"
  then have "n \<le> \<lfloor>x\<rfloor>" by (simp add: le_floor_iff)
  then show ?thesis by (simp add: round_half_even_def Let_def)
qed

lemma rhe_le: "x \<le> of_int n \<Longrightarrow> round_half_even x \<le> n"
proof -
  assume a: "x \<le> of_int n"
  then have f: "\<lfloor>x\<rfloor> \<le> n" by (simp add: floor_le_iff)
  show ?thesis
  proof (cases "x = of_int n")
    case True
    then show ?thesis by (simp add: round_half_even_def)
  next
    case False
    then have "x < of_int n" using a by simp
    then have "\<lfloor>x\<rfloor> < n" by (simp add: floor_less_iff)
    then show ?thesis by (simp add: round_half_even_def Let_def)
  qed
qed

lemma rhe_of_int [simp]: "round_half_even (of_int n) = n"
  by (simp add: round_half_even_def)

lemma rhe_lt: "x + 1 / 2 < of_int n \<Longrightarrow> round_half_even x < n"
proof -
  assume a: "x + 1 / 2 < of_int n"
  have fl: "of_int \<lfloor>x\<rfloor> \<le> x" by simp
  have "x < of_int n" using a by simp
  then have f: "\<lfloor>x\<rfloor> < n" by (simp add: floor_less_iff)
  show ?thesis
  proof (cases "x - of_int \<lfloor>x\<rfloor> < 1 / 2")
    case True
    then show ?thesis using f by (simp add: round_half_even_def Let_def)
  next
    case False
    then have "of_int \<lfloor>x\<rfloor> + 1 \<le> x + 1 / 2" by simp
    then have "rat_of_int (\<lfloor>x\<rfloor> + 1) < of_int n" using a by simp
    then have "\<lfloor>x\<rfloor> + 1 < n" by (simp only: of_int_less_iff)
    then show ?thesis using f by (simp add: round_half_even_def Let_def)
  qed
qed


subsection \<open>Rounding onto the grid of a binade\<close>

lemma p2_le_iff: "(2::rat) powi a \<le> 2 powi b \<longleftrightarrow> a \<le> b"
proof
  assume h: "(2::rat) powi a \<le> 2 powi b"
  show "a \<le> b"
  proof (rule ccontr)
    assume "\<not> a \<le> b"
    then have "(2::rat) powi b < 2 powi a" by (intro power_int_strict_increasing) simp_all
    with h show False by simp
  qed
next
  assume "a \<le> b"
  then show "(2::rat) powi a \<le> 2 powi b" by (intro power_int_increasing) simp_all
qed

lemma p2_less_iff: "(2::rat) powi a < 2 powi b \<longleftrightarrow> a < b"
  using p2_le_iff[of b a] by (simp add: not_le[symmetric])

lemma ilog2_less: "0 < x \<Longrightarrow> x < 2 powi k \<Longrightarrow> ilog2 x < k"
  using ilog2_bounds(1)[of x] p2_less_iff[of "ilog2 x" k] by simp

lemma ilog2_ge: "0 < x \<Longrightarrow> 2 powi k \<le> x \<Longrightarrow> k \<le> ilog2 x"
  using ilog2_bounds(2)[of x] p2_less_iff[of k "ilog2 x + 1"] by simp

lemma p2_pos: "(0::rat) < 2 powi k"
  by simp

lemma rtd_pos:
  assumes "0 < x"
  shows "round_to_double x =
    (if 2 ^ 1024 \<le> rat_of_int (round_half_even (x / 2 powi double_exponent x)) * 2 powi double_exponent x
     then Infinity False
     else Finite (of_int (round_half_even (x / 2 powi double_exponent x)) * 2 powi double_exponent x))"
  using assms by (simp add: round_to_double_def Let_def)

lemma double_exponent_minus [simp]: "double_exponent (- x) = double_exponent x"
  by (simp add: double_exponent_def)

lemma rtd_minus: "round_to_double (- x) = double_neg (round_to_double x)"
  by (cases "x = 0") (auto simp: round_to_double_def Let_def sgn_if)

lemma rtd_grid_le:
  assumes x: "0 < x" and le: "x \<le> z" and grid: "z / 2 powi double_exponent x = of_int n"
    and fin: "z < 2 ^ 1024"
  shows "\<exists>y. round_to_double x = Finite y \<and> 0 \<le> y \<and> y \<le> z"
proof -
  define e where "e = double_exponent x"
  define m where "m = round_half_even (x / 2 powi e)"
  have "x / 2 powi e \<le> z / 2 powi e" using le by (simp add: divide_right_mono)
  then have "m \<le> n" unfolding m_def using grid rhe_le[of "x / 2 powi e" n] by (simp add: e_def)
  then have "rat_of_int m \<le> of_int n" by simp
  then have "rat_of_int m * 2 powi e \<le> rat_of_int n * 2 powi e"
    by (simp add: mult_right_mono)
  also have "rat_of_int n * 2 powi e = z" using grid by (simp add: e_def field_simps)
  finally have u: "rat_of_int m * 2 powi e \<le> z" .
  have "rat_of_int 0 \<le> x / 2 powi e" using x by simp
  then have "0 \<le> m" unfolding m_def by (rule rhe_ge)
  then have l: "0 \<le> rat_of_int m * 2 powi e" by simp
  show ?thesis using u l fin by (simp add: rtd_pos[OF x] e_def[symmetric] m_def[symmetric])
qed

lemma rtd_grid_ge:
  assumes x: "0 < x" and le: "z \<le> x" and grid: "z / 2 powi double_exponent x = of_int n"
  shows "round_to_double x = Infinity False \<or> (\<exists>y. round_to_double x = Finite y \<and> z \<le> y)"
proof -
  define e where "e = double_exponent x"
  define m where "m = round_half_even (x / 2 powi e)"
  have "z / 2 powi e \<le> x / 2 powi e" using le by (simp add: divide_right_mono)
  then have "n \<le> m" unfolding m_def using grid rhe_ge[of n "x / 2 powi e"] by (simp add: e_def)
  then have "rat_of_int n \<le> of_int m" by simp
  then have "rat_of_int n * 2 powi e \<le> rat_of_int m * 2 powi e"
    by (simp add: mult_right_mono)
  moreover have "rat_of_int n * 2 powi e = z" using grid by (simp add: e_def field_simps)
  ultimately have u: "z \<le> rat_of_int m * 2 powi e" by simp
  show ?thesis using u by (simp add: rtd_pos[OF x] e_def[symmetric] m_def[symmetric])
qed

lemma rtd_exact:
  assumes x: "0 < x" and grid: "x / 2 powi double_exponent x = of_int n" and fin: "x < 2 ^ 1024"
  shows "round_to_double x = Finite x"
proof -
  have "rat_of_int n * 2 powi double_exponent x = x" using grid by (simp add: field_simps)
  then show ?thesis using fin by (simp add: rtd_pos[OF x] grid)
qed

lemma grid_mult:
  assumes "e \<le> k"
  shows "\<exists>n. (rat_of_int z * 2 powi k) / 2 powi e = of_int n"
proof -
  have "(2::rat) powi k / 2 powi e = 2 powi (k - e)" by (simp add: power_int_diff)
  also have "\<dots> = 2 ^ nat (k - e)" using assms by (simp add: power_int_nonneg_exp)
  finally have "(2::rat) powi k / 2 powi e = 2 ^ nat (k - e)" .
  then have "(rat_of_int z * 2 powi k) / 2 powi e = of_int z * 2 ^ nat (k - e)"
    by (simp only: times_divide_eq_right[symmetric])
  then have "(rat_of_int z * 2 powi k) / 2 powi e = of_int (z * 2 ^ nat (k - e))" by simp
  then show ?thesis ..
qed

lemma grid_int: "e \<le> 0 \<Longrightarrow> \<exists>n. rat_of_int z / 2 powi e = of_int n"
  using grid_mult[of e 0 z] by simp

lemma grid_p2: "e \<le> k \<Longrightarrow> \<exists>n. (2::rat) powi k / 2 powi e = of_int n"
  using grid_mult[of e k 1] by simp

lemma dexp_le:
  assumes "0 < x" "x < 2 powi k"
  shows "double_exponent x \<le> max (k - 53) (- 1074)"
  using ilog2_less[OF assms] assms(1) by (simp add: double_exponent_def)

lemma dexp_ge: "- 1074 \<le> double_exponent x"
  by (simp add: double_exponent_def)

lemma rtd_int_pos:
  assumes "0 < z" "z < 2 ^ 53"
  shows "round_to_double (of_int z) = Finite (of_int z)"
proof -
  have x: "(0::rat) < of_int z" using assms by simp
  have "rat_of_int z < of_int (2 ^ 53)" using assms(2) by (simp only: of_int_less_iff)
  then have u: "rat_of_int z < 2 powi 53" by simp
  have "double_exponent (of_int z) \<le> 0" using dexp_le[OF x u] by simp
  then obtain n where g: "rat_of_int z / 2 powi double_exponent (of_int z) = of_int n"
    using grid_int by blast
  have "(2::rat) powi 53 < 2 powi 1024" by (simp only: p2_less_iff)
  then have "rat_of_int z < 2 ^ 1024" using u by simp
  then show ?thesis using rtd_exact[OF x g] by simp
qed

lemma rtd_int:
  assumes "\<bar>z\<bar> < 2 ^ 53"
  shows "round_to_double (of_int z) = Finite (of_int z)"
proof -
  consider "z = 0" | "0 < z" | "z < 0" by linarith
  then show ?thesis
  proof cases
    case 1
    then show ?thesis by (simp add: round_to_double_def)
  next
    case 2
    then show ?thesis using assms by (intro rtd_int_pos) simp_all
  next
    case 3
    then have "round_to_double (of_int (- z)) = Finite (of_int (- z))"
      using assms by (intro rtd_int_pos) simp_all
    then have "double_neg (round_to_double (of_int z)) = Finite (- of_int z)"
      by (simp add: rtd_minus)
    then show ?thesis by (cases "round_to_double (of_int z)") simp_all
  qed
qed

text \<open>
  The quotient of an integer below \<open>2 ^ 53\<close> by an integer, rounded to binary64, never
  reaches the next integer: the distance of the exact quotient from it is at least \<open>1 / p\<close>,
  more than half a unit in the last place.
\<close>

lemma rtd_div_floor:
  fixes v p :: int
  assumes v: "0 < v" "v < 2 ^ 53" and p: "2 \<le> p" "p < 2 ^ 1075"
  shows "\<exists>y. round_to_double (of_int v / of_int p) = Finite y \<and> 0 \<le> y \<and> \<lfloor>y\<rfloor> = v div p"
proof -
  define q :: rat where "q = of_int v / of_int p"
  define e where "e = double_exponent q"
  define K :: int where "K = 2 ^ nat (- e)"
  define n where "n = v div p"
  have pp: "(0::rat) < of_int p" using p by simp
  have q0: "0 < q" using v p by (simp add: q_def)
  have "rat_of_int v < of_int (2 ^ 53)" using v(2) by (simp only: of_int_less_iff)
  then have vu: "rat_of_int v < 2 ^ 53" by simp
  have "q * 2 \<le> q * of_int p" using p q0 by (simp add: mult_left_mono)
  also have "\<dots> = of_int v" using pp by (simp add: q_def)
  finally have "q < 2 ^ 52" using vu by simp
  then have "q < 2 powi 52" by simp
  then have "e \<le> - 1" using dexp_le[OF q0, of 52] by (simp add: e_def)
  then have e0: "e < 0" by simp
  have Ke: "(2::rat) powi e = 1 / of_int K"
    using e0 by (simp add: K_def power_int_def inverse_eq_divide power_one_over)
  have K0: "0 < K" by (simp add: K_def)
  have small: "of_int p * (2::rat) powi e < 2"
  proof (cases "e = - 1074")
    case True
    have "rat_of_int p < of_int (2 ^ 1075)" using p(2) by (simp only: of_int_less_iff)
    then have "rat_of_int p < 2 * 2 powi 1074" by simp
    then show ?thesis using True by (simp add: power_int_minus field_simps)
  next
    case False
    then have ee: "e = ilog2 q - 52" using q0 by (simp add: e_def double_exponent_def max_def split: if_splits)
    have "(2::rat) powi e = 2 powi ilog2 q / 2 powi 52" by (simp add: ee power_int_diff)
    also have "\<dots> \<le> q / 2 powi 52" using ilog2_bounds(1)[OF q0] by (simp add: divide_right_mono)
    finally have "of_int p * (2::rat) powi e \<le> of_int p * (q / 2 powi 52)"
      using pp by (simp add: mult_left_mono)
    also have "\<dots> = of_int v / 2 ^ 52" using pp by (simp add: q_def)
    also have "\<dots> < 2" using vu by simp
    finally show ?thesis .
  qed
  have nq: "n = \<lfloor>q\<rfloor>" by (simp add: n_def q_def floor_divide_of_int_eq)
  have nl: "of_int n \<le> q" by (simp add: nq)
  have "v = p * n + v mod p" by (simp add: n_def)
  moreover have "v mod p < p" using p(1) by simp
  ultimately have "v + 1 \<le> (n + 1) * p" by (simp add: algebra_simps)
  then have "rat_of_int (v + 1) \<le> of_int ((n + 1) * p)" by (simp only: of_int_le_iff)
  then have "rat_of_int v + 1 \<le> of_int (n + 1) * of_int p" by simp
  then have "(rat_of_int v + 1) / of_int p \<le> of_int (n + 1)"
    using pp by (simp add: pos_divide_le_eq)
  then have gap: "q + 1 / of_int p \<le> of_int (n + 1)"
    by (simp add: q_def add_divide_distrib)
  define X where "X = q / 2 powi e"
  define m where "m = round_half_even X"
  define y where "y = rat_of_int m * 2 powi e"
  have KK: "(0::rat) < of_int K" using K0 by simp
  have XK: "X = q * of_int K" by (simp add: X_def Ke)
  have "rat_of_int (n * K) \<le> X" using nl KK by (simp add: XK mult_right_mono)
  then have mN: "n * K \<le> m" unfolding m_def by (rule rhe_ge)
  have "rat_of_int p < 2 * of_int K" using small KK by (simp add: Ke pos_divide_less_eq)
  then have half: "1 / 2 < rat_of_int K / of_int p" using pp by (simp add: pos_less_divide_eq)
  have "X + 1 / 2 < X + rat_of_int K / of_int p" using half by (simp only: add_less_cancel_left)
  also have "\<dots> = (q + 1 / of_int p) * of_int K"
    by (simp add: XK algebra_simps)
  also have "\<dots> \<le> of_int (n + 1) * of_int K" using gap KK by (simp only: mult_right_mono less_imp_le)
  also have "\<dots> = rat_of_int ((n + 1) * K)" by simp
  finally have "X + 1 / 2 < rat_of_int ((n + 1) * K)" .
  then have mM: "m < (n + 1) * K" unfolding m_def by (rule rhe_lt)
  have yK: "y = rat_of_int m / of_int K" by (simp add: y_def Ke)
  have "rat_of_int (n * K) \<le> of_int m" using mN by (simp only: of_int_le_iff)
  then have yl: "of_int n \<le> y" using KK by (simp add: yK pos_le_divide_eq)
  have "rat_of_int m < of_int ((n + 1) * K)" using mM by (simp only: of_int_less_iff)
  then have yu: "y < of_int n + 1" using KK by (simp add: yK pos_divide_less_eq)
  have n0: "0 \<le> n" using v p by (simp add: n_def pos_imp_zdiv_nonneg_iff)
  have fl: "\<lfloor>y\<rfloor> = n" using yl yu by (simp add: floor_unique)
  have "n * 1 \<le> n * p" using n0 p(1) by (intro mult_left_mono) simp_all
  moreover have "0 \<le> v mod p" using p(1) by simp
  ultimately have "n \<le> v" using \<open>v = p * n + v mod p\<close> by (simp add: mult.commute)
  then have "n + 1 \<le> 2 ^ 53" using v by simp
  then have "rat_of_int (n + 1) \<le> of_int (2 ^ 53)" by (simp only: of_int_le_iff)
  then have "y < 2 powi 53" using yu by simp
  also have "(2::rat) powi 53 < 2 powi 1024" by (simp only: p2_less_iff)
  finally have "\<not> 2 ^ 1024 \<le> y" by simp
  then have "round_to_double q = Finite y"
    by (simp add: rtd_pos[OF q0] e_def[symmetric] X_def[symmetric] m_def[symmetric] y_def[symmetric])
  moreover have "0 \<le> y" using yl n0 by simp
  ultimately show ?thesis using fl by (auto simp: q_def n_def)
qed

lemma trunc_nonneg: "0 \<le> y \<Longrightarrow> truncate_rat y = \<lfloor>y\<rfloor>"
  by (simp add: truncate_rat_def)

lemma trunc_minus: "truncate_rat (- y) = - truncate_rat y"
  by (auto simp: truncate_rat_def ceiling_def)

lemma trunc_of_int [simp]: "truncate_rat (of_int z) = z"
  by (simp add: truncate_rat_def)

lemma trunc_zero [simp]: "truncate_rat 0 = 0"
  by (simp add: truncate_rat_def)

lemma sdiv_nonneg: "0 \<le> v \<Longrightarrow> 0 < p \<Longrightarrow> (v::int) sdiv p = v div p"
  by (simp add: signed_divide_int_def sgn_if)

lemma sdiv_neg: "v < 0 \<Longrightarrow> 0 < p \<Longrightarrow> (v::int) sdiv p = - ((- v) div p)"
  by (simp add: signed_divide_int_def sgn_if)

lemma rtd_div_trunc:
  fixes v p :: int
  assumes v: "\<bar>v\<bar> < 2 ^ 53" and p: "2 \<le> p" "p < 2 ^ 1075"
  shows "\<exists>y. round_to_double (of_int v / of_int p) = Finite y \<and> truncate_rat y = v sdiv p"
proof -
  consider "v = 0" | "0 < v" | "v < 0" by linarith
  then show ?thesis
  proof cases
    case 1
    then show ?thesis by (simp add: round_to_double_def)
  next
    case 2
    then obtain y where "round_to_double (of_int v / of_int p) = Finite y" "0 \<le> y" "\<lfloor>y\<rfloor> = v div p"
      using rtd_div_floor[of v p] v p by auto
    then show ?thesis using 2 p by (simp add: trunc_nonneg sdiv_nonneg)
  next
    case 3
    then obtain y where y: "round_to_double (of_int (- v) / of_int p) = Finite y" "0 \<le> y"
        "\<lfloor>y\<rfloor> = (- v) div p"
      using rtd_div_floor[of "- v" p] v p by auto
    have "round_to_double (of_int v / of_int p) = double_neg (round_to_double (of_int (- v) / of_int p))"
      using rtd_minus[of "of_int (- v) / of_int p"] by simp
    then have "round_to_double (of_int v / of_int p) = Finite (- y)" using y(1) by simp
    moreover have "truncate_rat (- y) = v sdiv p"
      using y 3 p by (simp add: trunc_minus trunc_nonneg sdiv_neg)
    ultimately show ?thesis by blast
  qed
qed

subsection \<open>Powers of the radix\<close>

lemma radix_int_ge2: "2 \<le> radix_int Rad"
  by (cases Rad) simp_all

lemma radix_power_ge2: "0 < n \<Longrightarrow> 2 \<le> radix_int Rad ^ n"
proof -
  assume "0 < n"
  then obtain k where "n = Suc k" by (cases n) auto
  moreover have "1 \<le> radix_int Rad ^ k" using radix_int_ge2[of Rad] by simp
  ultimately show ?thesis using radix_int_ge2[of Rad] mult_mono[of 2 "radix_int Rad" 1 "radix_int Rad ^ k"]
    by simp
qed

lemma std_pow_nonneg:
  "0 \<le> sint s \<Longrightarrow> std_pow Rad s = round_to_double (of_int (radix_int Rad ^ nat (sint s)))"
  by (simp add: std_pow_def power_int_nonneg_exp)

lemma std_pow_pos:
  assumes s: "0 < sint s"
  shows "std_pow Rad s = Infinity False \<and> 2 ^ 53 \<le> radix_int Rad ^ nat (sint s) \<or>
     (\<exists>p. std_pow Rad s = Finite (of_int p) \<and> 2 \<le> p \<and> p < 2 ^ 1024 \<and>
        (radix_int Rad ^ nat (sint s) < 2 ^ 53 \<longrightarrow> p = radix_int Rad ^ nat (sint s)) \<and>
        (2 ^ 53 \<le> radix_int Rad ^ nat (sint s) \<longrightarrow> 2 ^ 53 \<le> p))"
proof -
  define P where "P = radix_int Rad ^ nat (sint s)"
  have P2: "2 \<le> P" unfolding P_def using s by (intro radix_power_ge2) simp
  have sp: "std_pow Rad s = round_to_double (of_int P)"
    using s by (simp add: std_pow_nonneg P_def)
  show ?thesis
  proof (cases "P < 2 ^ 53")
    case True
    then have "std_pow Rad s = Finite (of_int P)" using P2 sp by (simp add: rtd_int)
    moreover have "P < 2 ^ 1024" using True by (rule less_trans) simp
    ultimately show ?thesis using P2 True unfolding P_def[symmetric] by auto
  next
    case False
    define x where "x = rat_of_int P"
    define e where "e = double_exponent x"
    define m where "m = round_half_even (x / 2 powi e)"
    have x0: "0 < x" using P2 by (simp add: x_def)
    have "rat_of_int (2 ^ 53) \<le> of_int P" using False by (simp only: of_int_le_iff)
    then have "2 powi 53 \<le> x" by (simp add: x_def)
    then have i53: "53 \<le> ilog2 x" using ilog2_ge[OF x0] by simp
    then have ee: "e = ilog2 x - 52" using x0 by (simp add: e_def double_exponent_def)
    have e1: "1 \<le> e" using i53 ee by simp
    have pe: "(2::rat) powi e = of_int (2 ^ nat e)" using e1 by (simp add: power_int_nonneg_exp)
    have "(2::rat) powi 52 = 2 powi ilog2 x / 2 powi e" by (simp add: ee power_int_diff)
    also have "\<dots> \<le> x / 2 powi e" using ilog2_bounds(1)[OF x0] by (simp add: divide_right_mono)
    finally have "rat_of_int (2 ^ 52) \<le> x / 2 powi e" by simp
    then have m52: "2 ^ 52 \<le> m" unfolding m_def by (rule rhe_ge)
    have "(2::int) * 2 ^ 52 \<le> 2 ^ nat e * m"
      using m52 e1 by (intro mult_mono) (simp_all add: self_le_power)
    then have big: "2 ^ 53 \<le> m * 2 ^ nat e" by (simp add: mult.commute)
    have y: "rat_of_int m * 2 powi e = of_int (m * 2 ^ nat e)" by (simp add: pe)
    show ?thesis
    proof (cases "(2::rat) ^ 1024 \<le> of_int m * 2 powi e")
      case True
      then have "std_pow Rad s = Infinity False"
        by (simp add: sp x_def[symmetric] rtd_pos[OF x0] e_def[symmetric] m_def[symmetric])
      then show ?thesis using False unfolding P_def[symmetric] by simp
    next
      case ov: False
      then have "std_pow Rad s = Finite (of_int m * 2 powi e)"
        by (simp add: sp x_def[symmetric] rtd_pos[OF x0] e_def[symmetric] m_def[symmetric])
      then have "std_pow Rad s = Finite (of_int (m * 2 ^ nat e))"
        by (simp only: y)
      moreover have "rat_of_int (m * 2 ^ nat e) < of_int (2 ^ 1024)" using ov by (simp add: y)
      then have "m * 2 ^ nat e < 2 ^ 1024" by (simp only: of_int_less_iff)
      moreover have "2 \<le> m * 2 ^ nat e" using big by simp
      ultimately show ?thesis using False big unfolding P_def[symmetric] by blast
    qed
  qed
qed

section \<open>The shift primitives on integers\<close>

lemma sint_word_of_int_range:
  "- (2 ^ (LENGTH('a) - 1)) \<le> x \<Longrightarrow> x < 2 ^ (LENGTH('a) - 1) \<Longrightarrow>
     sint (word_of_int x :: 'a::len word) = x"
  by (simp add: sint_sbintrunc' signed_take_bit_int_eq_self)

lemma sdiv_small: "\<bar>v\<bar> < p \<Longrightarrow> (v::int) sdiv p = 0"
  by (simp add: signed_divide_int_def)

lemma sdiv_between:
  assumes p: "0 < p"
  shows "min v 0 \<le> (v::int) sdiv p \<and> v sdiv p \<le> max v 0"
proof -
  have m: "\<bar>v\<bar> = \<bar>v\<bar> div p * p + \<bar>v\<bar> mod p" by simp
  have "0 \<le> \<bar>v\<bar> mod p" using p by simp
  then have "\<bar>v\<bar> div p * p \<le> \<bar>v\<bar>" using m by linarith
  moreover have d0: "0 \<le> \<bar>v\<bar> div p" using p by (simp add: pos_imp_zdiv_nonneg_iff)
  then have "\<bar>v\<bar> div p * 1 \<le> \<bar>v\<bar> div p * p"
    using p by (intro mult_left_mono) simp_all
  ultimately have "\<bar>v\<bar> div p \<le> \<bar>v\<bar>" by simp
  then show ?thesis using p d0 by (auto simp: signed_divide_int_def sgn_if)
qed

lemma int_to_double_exact:
  "\<bar>sint v\<bar> < 2 ^ 53 \<Longrightarrow> int_to_double v = Finite (of_int (sint v))"
  unfolding int_to_double_def by (rule rtd_int)

lemma right_shift_trunc:
  assumes s: "0 <s s" and v: "\<bar>sint v\<bar> < 2 ^ 53"
  shows "\<exists>y. right_shift Rad v s = Inr (Finite y) \<and>
           truncate_rat y = sint v sdiv radix_int Rad ^ nat (sint s)"
proof -
  define P where "P = radix_int Rad ^ nat (sint s)"
  have s0: "0 < sint s" using s by (simp add: word_sless_alt)
  have rs: "right_shift Rad v s = Inr (double_div (Finite (of_int (sint v))) (std_pow Rad s))"
    using s v by (simp add: right_shift_def int_to_double_exact)
  from std_pow_pos[OF s0, of Rad] show ?thesis
  proof (elim disjE conjE exE)
    assume "std_pow Rad s = Infinity False" "2 ^ 53 \<le> radix_int Rad ^ nat (sint s)"
    then show ?thesis using v by (simp add: rs sdiv_small)
  next
    fix p
    assume p: "std_pow Rad s = Finite (rat_of_int p)" "2 \<le> p" "p < 2 ^ 1024"
      "radix_int Rad ^ nat (sint s) < 2 ^ 53 \<longrightarrow> p = radix_int Rad ^ nat (sint s)"
      "2 ^ 53 \<le> radix_int Rad ^ nat (sint s) \<longrightarrow> 2 ^ 53 \<le> p"
    have "p < 2 ^ 1075" using p(3) by (rule less_trans) simp
    then obtain y where y: "round_to_double (of_int (sint v) / of_int p) = Finite y"
        "truncate_rat y = sint v sdiv p"
      using rtd_div_trunc[OF v p(2)] by blast
    have "sint v sdiv p = sint v sdiv P"
    proof (cases "P < 2 ^ 53")
      case True
      then show ?thesis using p(4) by (simp add: P_def)
    next
      case False
      then have "\<bar>sint v\<bar> < p" "\<bar>sint v\<bar> < P" using p(5) v by (simp_all add: P_def)
      then show ?thesis by (simp add: sdiv_small)
    qed
    then show ?thesis using y p(1,2) by (simp add: rs P_def)
  qed
qed

lemma shift_right_trunc:
  assumes s: "0 <s s" and v: "\<bar>sint v\<bar> < 2 ^ 53"
  shows "\<exists>w. shift Rad v s = Inr w \<and> sint w = sint v sdiv radix_int Rad ^ nat (sint s)"
proof -
  define t where "t = sint v sdiv radix_int Rad ^ nat (sint s)"
  obtain y where y: "right_shift Rad v s = Inr (Finite y)" "truncate_rat y = t"
    using right_shift_trunc[OF s v] unfolding t_def by blast
  have "0 < radix_int Rad ^ nat (sint s)" using radix_int_ge2[of Rad] by simp
  then have "min (sint v) 0 \<le> t \<and> t \<le> max (sint v) 0" unfolding t_def by (rule sdiv_between)
  then have r: "- (2 ^ (LENGTH('a) - 1)) \<le> t" "t < 2 ^ (LENGTH('a) - 1)"
    using sint_ge[of v] sint_lt[of v] by linarith+
  have s0: "s \<noteq> 0" using s by auto
  have "shift Rad v s = Inr (word_of_int t)"
    using s s0 y r by (simp add: shift_def)
  then show ?thesis using r by (simp add: sint_word_of_int_range t_def)
qed

lemma rtd_bound_pos:
  assumes x: "0 < x" "x \<le> 2 powi k" and k: "- 1074 \<le> k" "k < 1024"
  shows "\<exists>y. round_to_double x = Finite y \<and> 0 \<le> y \<and> y \<le> 2 powi k"
proof -
  have "(2::rat) powi k < 2 powi (k + 1)" by (simp add: p2_less_iff)
  then have "x < 2 powi (k + 1)" using x(2) by simp
  then have "double_exponent x \<le> max (k + 1 - 53) (- 1074)" by (rule dexp_le[OF x(1)])
  then have "double_exponent x \<le> k" using k by simp
  then obtain n where g: "(2::rat) powi k / 2 powi double_exponent x = of_int n"
    using grid_p2 by blast
  have "(2::rat) powi k < 2 powi 1024" using k by (simp only: p2_less_iff)
  then have "(2::rat) powi k < 2 ^ 1024" by simp
  then show ?thesis using rtd_grid_le[OF x(1) x(2) g] by blast
qed

lemma rtd_bound:
  assumes x: "\<bar>x\<bar> \<le> 2 powi k" and k: "- 1074 \<le> k" "k < 1024"
  shows "\<exists>y. round_to_double x = Finite y \<and> \<bar>y\<bar> \<le> 2 powi k"
proof -
  consider "x = 0" | "0 < x" | "x < 0" by linarith
  then show ?thesis
  proof cases
    case 1
    then show ?thesis by (simp add: round_to_double_def)
  next
    case 2
    then obtain y where "round_to_double x = Finite y" "0 \<le> y" "y \<le> 2 powi k"
      using rtd_bound_pos[of x k] x k by auto
    then show ?thesis by auto
  next
    case 3
    then obtain y where y: "round_to_double (- x) = Finite y" "0 \<le> y" "y \<le> 2 powi k"
      using rtd_bound_pos[of "- x" k] x k by auto
    then have "double_neg (round_to_double x) = Finite y" by (simp add: rtd_minus)
    then have "round_to_double x = Finite (- y)" by (cases "round_to_double x") auto
    then show ?thesis using y by auto
  qed
qed

lemma trunc_abs_le: "\<bar>rat_of_int (truncate_rat y)\<bar> \<le> \<bar>y\<bar>"
proof (cases "0 \<le> y")
  case True
  then show ?thesis by (simp add: truncate_rat_def)
next
  case False
  then have "y \<le> of_int \<lceil>y\<rceil>" "\<lceil>y\<rceil> \<le> 0" by (simp_all add: ceiling_le_iff)
  then show ?thesis using False by (simp add: truncate_rat_def)
qed

lemma int_to_double_bound:
  assumes "LENGTH('a::len) \<le> 1024"
  shows "\<exists>a. int_to_double (v :: 'a word) = Finite a \<and> \<bar>a\<bar> \<le> 2 powi (int LENGTH('a) - 1)"
proof -
  have "\<bar>sint v\<bar> \<le> 2 ^ (LENGTH('a) - 1)" using sint_ge[of v] sint_lt[of v] by simp
  then have "rat_of_int \<bar>sint v\<bar> \<le> of_int (2 ^ (LENGTH('a) - 1))" by (simp only: of_int_le_iff)
  then have "\<bar>rat_of_int (sint v)\<bar> \<le> 2 ^ (LENGTH('a) - 1)" by (simp del: of_int_sint)
  also have "(2::rat) ^ (LENGTH('a) - 1) = 2 powi (int LENGTH('a) - 1)"
    by (simp add: power_int_def nat_diff_distrib')
  finally show ?thesis unfolding int_to_double_def using assms by (intro rtd_bound) simp_all
qed

lemma shift_right_defined:
  assumes s: "0 <s s" and len: "LENGTH('a::len) \<le> 1024"
  shows "\<exists>w. shift Rad (v :: 'a word) s = Inr w"
proof -
  define L where "L = int LENGTH('a)"
  have L1: "1 \<le> L" by (simp add: L_def Suc_leI)
  have s0: "0 < sint s" using s by (simp add: word_sless_alt)
  have sn: "s \<noteq> 0" using s by auto
  obtain a where a: "int_to_double v = Finite a" "\<bar>a\<bar> \<le> 2 powi (L - 1)"
    using int_to_double_bound[OF len, of v] unfolding L_def by blast
  have "\<exists>y. double_div (Finite a) (std_pow Rad s) = Finite y \<and> \<bar>y\<bar> \<le> 2 powi (L - 2)"
    using std_pow_pos[OF s0, of Rad]
  proof (elim disjE conjE exE)
    assume "std_pow Rad s = Infinity False"
    then show ?thesis by simp
  next
    fix p
    assume p: "std_pow Rad s = Finite (rat_of_int p)" "2 \<le> p"
    then have p2: "(2::rat) \<le> of_int p" by simp
    have "\<bar>a / of_int p\<bar> = \<bar>a\<bar> / of_int p" using p2 by simp
    also have "\<dots> \<le> \<bar>a\<bar> / 2" using p2 by (intro divide_left_mono) simp_all
    also have "\<dots> \<le> 2 powi (L - 1) / 2" using a(2) by simp
    also have "\<dots> = 2 powi (L - 2)" using power_int_diff[of "2::rat" "L - 1" 1] by simp
    finally have "\<exists>y. round_to_double (a / of_int p) = Finite y \<and> \<bar>y\<bar> \<le> 2 powi (L - 2)"
      using L1 len by (intro rtd_bound) (simp_all add: L_def)
    then show ?thesis using p by simp
  qed
  then obtain y where y: "double_div (Finite a) (std_pow Rad s) = Finite y" "\<bar>y\<bar> \<le> 2 powi (L - 2)"
    by blast
  define t where "t = truncate_rat y"
  have "\<bar>rat_of_int t\<bar> \<le> 2 powi (L - 2)" using trunc_abs_le[of y] y(2) by (simp add: t_def)
  also have "(2::rat) powi (L - 2) < 2 powi (L - 1)" by (simp add: p2_less_iff)
  also have "(2::rat) powi (L - 1) = of_int (2 ^ (LENGTH('a) - 1))"
    by (simp add: L_def power_int_def nat_diff_distrib')
  finally have "rat_of_int \<bar>t\<bar> < of_int (2 ^ (LENGTH('a) - 1))" by simp
  then have "\<bar>t\<bar> < 2 ^ (LENGTH('a) - 1)" by (simp only: of_int_less_iff)
  then have "- (2 ^ (LENGTH('a) - 1)) \<le> t \<and> t < 2 ^ (LENGTH('a) - 1)" by linarith
  then show ?thesis using s sn a(1) y(1) by (simp add: shift_def right_shift_def t_def)
qed

section \<open>Alignment of the operands\<close>

lemma sless_asym: "a <s b \<Longrightarrow> \<not> b <s a"
  by (simp add: word_sless_alt)

lemma sless_total: "\<not> a <s b \<Longrightarrow> \<not> b <s a \<Longrightarrow> a = (b :: 'a::len word)"
  using signed.less_linear by blast

lemma rhsv_swap: "rhsv Rad a b = lhsv Rad b a"
  by (simp add: rhsv_def lhsv_def)

lemma result_scale_commute: "result_scale a b = result_scale b a"
  using sless_asym[of "fp_scale a" "fp_scale b"] sless_total[of "fp_scale a" "fp_scale b"]
  by (auto simp: result_scale_def)

lemma one_side_unshifted: "lhsv Rad a b = Inr (fp_value a) \<or> rhsv Rad a b = Inr (fp_value b)"
  using sless_asym[of "fp_scale a" "fp_scale b"] by (auto simp: lhsv_def rhsv_def)

text \<open>
  Claim C8. For operands of the same \<^verbatim>\<open>(Rep, Radix)\<close>, \<open>a + b\<close> and \<open>b + a\<close> give the same
  value and scale, and so do \<open>a * b\<close> and \<open>b * a\<close>. At most one operand of \<open>+\<close> is shifted,
  and it is shifted by the same amount on both sides, so the two sides agree in every case,
  also where the sum wraps or the cast of a shifted value is undefined.
\<close>

theorem plus_times_commute:
  "op_plus Rad a b = op_plus Rad b a \<and> op_times Rad a b = op_times Rad b a"
proof
  show "op_plus Rad a b = op_plus Rad b a"
    using one_side_unshifted[of Rad a b]
    by (auto simp: op_plus_def rhsv_swap[of Rad b a] rhsv_swap[of Rad a b] result_scale_commute[of a b]
        add.commute split: sum.splits)
  show "op_times Rad a b = op_times Rad b a"
    by (simp add: op_times_def mult.commute add.commute)
qed

text \<open>
  Claim C10. Equality is reflexive (\<open>x == x\<close> is true: equal scales mean no shift) and
  symmetric (\<open>a == b\<close> and \<open>b == a\<close> align the same operand and compare the same two values).
\<close>

theorem eq_reflexive_symmetric:
  "op_eq Rad x x = Inr True \<and> op_eq Rad a b = op_eq Rad b a"
proof
  show "op_eq Rad x x = Inr True"
    by (simp add: op_eq_def rhsv_def lhsv_def)
  show "op_eq Rad a b = op_eq Rad b a"
    using one_side_unshifted[of Rad a b]
    by (auto simp: op_eq_def rhsv_swap[of Rad b a] rhsv_swap[of Rad a b] split: sum.splits)
qed

section \<open>The overflow predicates\<close>

lemma mult_le_iff_le_div:
  fixes a b c :: int
  assumes c: "0 < c"
  shows "a * c \<le> b \<longleftrightarrow> a \<le> b div c"
proof
  assume "a * c \<le> b"
  then have "a * c div c \<le> b div c" using c by (intro zdiv_mono1)
  then show "a \<le> b div c" using c by simp
next
  assume "a \<le> b div c"
  then have "a * c \<le> b div c * c" using c by (intro mult_right_mono) simp_all
  also have "\<dots> \<le> b"
  proof -
    have "b = b div c * c + b mod c" by simp
    moreover have "0 \<le> b mod c" using c by simp
    ultimately show ?thesis by linarith
  qed
  finally show "a * c \<le> b" .
qed

lemma sint_rep_max: "sint (rep_max :: 'a::len word) = 2 ^ (LENGTH('a) - 1) - 1"
  unfolding rep_max_def by (rule sint_word_of_int_range) simp_all

lemma sint_rep_min: "sint (rep_min :: 'a::len word) = - (2 ^ (LENGTH('a) - 1))"
  unfolding rep_min_def by (rule sint_word_of_int_range) simp_all

lemma sint_diff_range:
  "fits LENGTH('a) (sint a - sint b) \<Longrightarrow> sint (a - b :: 'a::len word) = sint a - sint b"
  by (simp add: fits_def sint_word_diff signed_take_bit_int_eq_self)

lemma sint_add_range:
  "fits LENGTH('a) (sint a + sint b) \<Longrightarrow> sint (a + b :: 'a::len word) = sint a + sint b"
  by (simp add: fits_def sint_word_add signed_take_bit_int_eq_self)

lemma sint_mult_range:
  "fits LENGTH('a) (sint a * sint b) \<Longrightarrow> sint (a * b :: 'a::len word) = sint a * sint b"
  by (simp add: fits_def sint_word_mult signed_take_bit_int_eq_self)

lemma sint_word_sdiv_range:
  "fits LENGTH('a) (sint a sdiv sint b) \<Longrightarrow>
     sint (word_sdiv a b :: 'a::len word) = sint a sdiv sint b"
  by (simp add: fits_def word_sdiv_def sint_word_of_int_range)

lemma sint_word_sdiv_eq:
  "sint a sdiv sint b = q \<Longrightarrow> fits LENGTH('a) q \<Longrightarrow> sint (word_sdiv a b :: 'a::len word) = q"
  using sint_word_sdiv_range[of a b] by simp

lemma fits_sint: "fits LENGTH('a) (sint (x :: 'a::len word))"
  using sint_ge[of x] sint_lt[of x] by (simp add: fits_def)

lemma addition_overflow_iff:
  "addition_overflow l r \<longleftrightarrow> \<not> fits LENGTH('a) (sint l + sint (r :: 'a::len word))"
proof (cases "0 < sint r")
  case True
  have "fits LENGTH('a) (sint (rep_max :: 'a word) - sint r)"
    using True fits_sint[of r] by (simp add: fits_def sint_rep_max)
  then have "sint (rep_max - r) = 2 ^ (LENGTH('a) - 1) - 1 - sint r"
    by (simp add: sint_diff_range sint_rep_max)
  then show ?thesis using True fits_sint[of l]
    by (auto simp: addition_overflow_def word_sless_alt fits_def)
next
  case False
  have "fits LENGTH('a) (sint (rep_min :: 'a word) - sint r)"
    using False fits_sint[of r] by (simp add: fits_def sint_rep_min)
  then have "sint (rep_min - r) = - (2 ^ (LENGTH('a) - 1)) - sint r"
    by (simp add: sint_diff_range sint_rep_min)
  then show ?thesis using False fits_sint[of l]
    by (auto simp: addition_overflow_def word_sless_alt fits_def)
qed

lemma subtraction_overflow_iff:
  "subtraction_overflow l r \<longleftrightarrow> \<not> fits LENGTH('a) (sint l - sint (r :: 'a::len word))"
proof (cases "0 < sint r")
  case True
  have "fits LENGTH('a) (sint (rep_min :: 'a word) + sint r)"
    using True fits_sint[of r] by (simp add: fits_def sint_rep_min)
  then have "sint (rep_min + r) = - (2 ^ (LENGTH('a) - 1)) + sint r"
    by (simp add: sint_add_range sint_rep_min)
  then show ?thesis using True fits_sint[of l]
    by (auto simp: subtraction_overflow_def word_sless_alt fits_def)
next
  case False
  have "fits LENGTH('a) (sint (rep_max :: 'a word) + sint r)"
    using False fits_sint[of r] by (simp add: fits_def sint_rep_max)
  then have "sint (rep_max + r) = 2 ^ (LENGTH('a) - 1) - 1 + sint r"
    by (simp add: sint_add_range sint_rep_max)
  then show ?thesis using False fits_sint[of l]
    by (auto simp: subtraction_overflow_def word_sless_alt fits_def)
qed


lemma sint_eq_iff: "a = b \<longleftrightarrow> sint a = sint (b :: 'a::len word)"
  using signed_word_eqI[of a b, where 'a = int] by auto

lemma sint_minus1_iff: "r = - 1 \<longleftrightarrow> sint (r :: 'a::len word) = - 1"
  by (simp add: sint_eq_iff[of r "- 1"])

lemma rep_min_iff: "l = rep_min \<longleftrightarrow> sint (l :: 'a::len word) = - (2 ^ (LENGTH('a) - 1))"
  by (simp add: sint_eq_iff[of l rep_min] sint_rep_min)

lemma sdiv_pos_neg: "0 \<le> a \<Longrightarrow> b < 0 \<Longrightarrow> (a::int) sdiv b = - (a div - b)"
  by (simp add: signed_divide_int_def sgn_if)

lemma sdiv_neg_neg: "a < 0 \<Longrightarrow> b < 0 \<Longrightarrow> (a::int) sdiv b = - a div - b"
  by (simp add: signed_divide_int_def sgn_if)

lemma div_le_self_int: "0 \<le> a \<Longrightarrow> 0 < b \<Longrightarrow> (a::int) div b \<le> a"
  using mult_le_iff_le_div[of b "a div b" a] mult_left_mono[of 1 b "a div b"]
  by (simp add: pos_imp_zdiv_nonneg_iff)

lemma multiplication_overflow_iff:
  "multiplication_overflow l r \<longleftrightarrow> \<not> fits LENGTH('a) (sint l * sint (r :: 'a::len word))"
proof -
  define B :: int where "B = 2 ^ (LENGTH('a) - 1)"
  define x where "x = sint l"
  define y where "y = sint r"
  have B1: "1 \<le> B" by (simp add: B_def)
  have x: "- B \<le> x" "x < B" using sint_ge[of l] sint_lt[of l] by (simp_all add: x_def B_def)
  have y: "- B \<le> y" "y < B" using sint_ge[of r] sint_lt[of r] by (simp_all add: y_def B_def)
  have f: "\<And>z. fits LENGTH('a) z \<longleftrightarrow> - B \<le> z \<and> z < B" by (simp add: fits_def B_def)
  have mx: "sint (rep_max :: 'a word) = B - 1" by (simp add: sint_rep_max B_def)
  have mn: "sint (rep_min :: 'a word) = - B" by (simp add: sint_rep_min B_def)
  consider "0 < y" | "y < - 1" | "y = - 1" | "y = 0" by linarith
  then show ?thesis
  proof cases
    case 1
    have q1: "(B - 1) sdiv y = (B - 1) div y" using 1 B1 by (simp add: sdiv_nonneg)
    have q2: "(- B) sdiv y = - (B div y)" using 1 B1 by (simp add: sdiv_neg sdiv_nonneg)
    have "(B - 1) div y \<le> B - 1" using 1 B1 by (intro div_le_self_int) simp_all
    then have d1: "0 \<le> (B - 1) div y" "(B - 1) div y < B"
      using 1 B1 by (simp_all add: pos_imp_zdiv_nonneg_iff)
    have "B div y \<le> B" using 1 B1 by (intro div_le_self_int) simp_all
    then have d2: "0 \<le> B div y" "B div y \<le> B"
      using 1 B1 by (simp_all add: pos_imp_zdiv_nonneg_iff)
    have s1: "sint (word_sdiv rep_max r :: 'a word) = (B - 1) div y"
      using d1 q1 B1 by (intro sint_word_sdiv_eq) (simp_all only: f mx y_def[symmetric], simp_all)
    have s2: "sint (word_sdiv rep_min r :: 'a word) = - (B div y)"
      using d2 q2 B1 by (intro sint_word_sdiv_eq) (simp_all only: f mn y_def[symmetric], simp_all)
    have a: "x * y \<le> B - 1 \<longleftrightarrow> x \<le> (B - 1) div y" using 1 by (rule mult_le_iff_le_div)
    have "(- x) * y \<le> B \<longleftrightarrow> - x \<le> B div y" using 1 by (rule mult_le_iff_le_div)
    then have b: "- B \<le> x * y \<longleftrightarrow> - (B div y) \<le> x" by simp linarith
    have "multiplication_overflow l r \<longleftrightarrow> (B - 1) div y < x \<or> x < - (B div y)"
      using 1 by (simp add: multiplication_overflow_def word_sless_alt s1 s2 x_def y_def)
    also have "\<dots> \<longleftrightarrow> \<not> (- B \<le> x * y \<and> x * y < B)" using a b by auto
    finally show ?thesis by (simp add: f x_def y_def)
  next
    case 2
    define y' where "y' = - y"
    have y': "2 \<le> y'" "0 < y'" "y = - y'" using 2 by (simp_all add: y'_def)
    have q1: "(B - 1) sdiv y = - ((B - 1) div y')" using 2 B1 by (simp add: sdiv_pos_neg y'_def)
    have q2: "(- B) sdiv y = B div y'"
      using 2 B1 by (simp add: sdiv_neg_neg sdiv_pos_neg sdiv_nonneg y'_def)
    have "(B - 1) div y' \<le> B - 1" using y' B1 by (intro div_le_self_int) simp_all
    then have d1: "0 \<le> (B - 1) div y'" "(B - 1) div y' < B"
      using y' B1 by (simp_all add: pos_imp_zdiv_nonneg_iff)
    have "B div y' < B" using y' B1 by (intro int_div_less_self) simp_all
    then have d2: "0 \<le> B div y'" "B div y' < B"
      using y' B1 by (simp_all add: pos_imp_zdiv_nonneg_iff)
    have s1: "sint (word_sdiv rep_max r :: 'a word) = - ((B - 1) div y')"
      using d1 q1 B1 by (intro sint_word_sdiv_eq) (simp_all only: f mx y_def[symmetric], simp_all)
    have s2: "sint (word_sdiv rep_min r :: 'a word) = B div y'"
      using d2 q2 B1 by (intro sint_word_sdiv_eq) (simp_all only: f mn y_def[symmetric], simp_all)
    have "x * y' \<le> B \<longleftrightarrow> x \<le> B div y'" using y'(2) by (rule mult_le_iff_le_div)
    then have a: "- B \<le> x * y \<longleftrightarrow> x \<le> B div y'" by (simp add: y'(3))
    have "(- x) * y' \<le> B - 1 \<longleftrightarrow> - x \<le> (B - 1) div y'" using y'(2) by (rule mult_le_iff_le_div)
    then have b: "x * y \<le> B - 1 \<longleftrightarrow> - ((B - 1) div y') \<le> x" by (simp add: y'(3)) linarith
    have lt: "r <s - 1" "\<not> 0 <s r" using 2 by (simp_all add: word_sless_alt y_def)
    have "multiplication_overflow l r \<longleftrightarrow> B div y' < x \<or> x < - ((B - 1) div y')"
      using lt by (simp add: multiplication_overflow_def word_sless_alt s1 s2 x_def)
    also have "\<dots> \<longleftrightarrow> \<not> (- B \<le> x * y \<and> x * y < B)" using a b by auto
    finally show ?thesis by (simp add: f x_def y_def)
  next
    case 3
    have lt: "\<not> r <s - 1" "\<not> 0 <s r" "r = - 1"
      using 3 by (simp_all add: word_sless_alt y_def sint_minus1_iff)
    have "multiplication_overflow l r \<longleftrightarrow> x = - B"
      using lt(1,2) by (simp add: multiplication_overflow_def lt(3) rep_min_iff x_def B_def)
    also have "\<dots> \<longleftrightarrow> \<not> (- B \<le> x * y \<and> x * y < B)" using 3 x by auto
    finally show ?thesis by (simp add: f x_def y_def)
  next
    case 4
    have lt: "\<not> r <s - 1" "\<not> 0 <s r" "r \<noteq> - 1"
      using 4 by (simp_all add: word_sless_alt y_def sint_minus1_iff)
    have "\<not> multiplication_overflow l r"
      using lt by (simp add: multiplication_overflow_def)
    then show ?thesis using 4 B1 by (simp add: f y_def[symmetric])
  qed
qed

lemma sint_zero_iff: "sint (r :: 'a::len word) = 0 \<longleftrightarrow> r = 0"
  by (simp add: sint_eq_iff[of r 0])

lemma division_overflow_iff:
  assumes r: "r \<noteq> (0 :: 'a::len word)"
  shows "division_overflow l r \<longleftrightarrow> \<not> fits LENGTH('a) (sint l sdiv sint r)"
proof -
  define B :: int where "B = 2 ^ (LENGTH('a) - 1)"
  define x where "x = sint l"
  define y where "y = sint r"
  have B1: "1 \<le> B" by (simp add: B_def)
  have x: "- B \<le> x" "x < B" using sint_ge[of l] sint_lt[of l] by (simp_all add: x_def B_def)
  have f: "\<And>z. fits LENGTH('a) z \<longleftrightarrow> - B \<le> z \<and> z < B" by (simp add: fits_def B_def)
  have y0: "y \<noteq> 0" using r by (simp add: y_def sint_zero_iff)
  then consider "0 < y" | "y < - 1" | "y = - 1" by linarith
  then show ?thesis
  proof cases
    case 1
    then have "r \<noteq> - 1" by (auto simp: sint_minus1_iff y_def)
    moreover have "- B \<le> x sdiv y \<and> x sdiv y < B"
      using sdiv_between[OF 1, of x] x by auto
    ultimately show ?thesis by (simp add: division_overflow_def f x_def y_def)
  next
    case 2
    then have n1: "r \<noteq> - 1" by (auto simp: sint_minus1_iff y_def)
    define y' where "y' = - y"
    have y': "0 < y'" "1 < y'" using 2 by (simp_all add: y'_def)
    have q: "x sdiv y = - (x sdiv y')" using 2 by (simp add: signed_divide_int_def sgn_if y'_def)
    have b: "min x 0 \<le> x sdiv y'" "x sdiv y' \<le> max x 0" using sdiv_between[OF y'(1), of x] by simp_all
    have "- B < x sdiv y'"
    proof (cases "x < 0")
      case True
      then have "- x div y' < - x" using y' by (intro int_div_less_self) simp_all
      then show ?thesis using True y' x by (simp add: sdiv_neg)
    next
      case False
      then show ?thesis using b(1) B1 by simp
    qed
    then have "- B \<le> x sdiv y \<and> x sdiv y < B" using b(2) x by (simp add: q)
    then show ?thesis using n1 by (simp add: division_overflow_def f x_def y_def)
  next
    case 3
    then have "r = - 1" by (simp add: sint_minus1_iff y_def)
    then have d: "division_overflow l r \<longleftrightarrow> x = - B"
      by (simp add: division_overflow_def rep_min_iff x_def B_def)
    have "x sdiv y = - x" using 3 by simp
    then have "(- B \<le> x sdiv y \<and> x sdiv y < B) \<longleftrightarrow> x \<noteq> - B" using x by auto
    then show ?thesis using d unfolding f x_def y_def by simp
  qed
qed

text \<open>
  Claim C4. For \<^verbatim>\<open>Rep\<close> a signed type of any width (\<^verbatim>\<open>int32_t\<close> and \<^verbatim>\<open>int64_t\<close> among
  them) and operands \<open>l\<close>, \<open>r\<close> of that type: \<^verbatim>\<open>addition_overflow\<close>,
  \<^verbatim>\<open>subtraction_overflow\<close> and \<^verbatim>\<open>multiplication_overflow\<close> are true exactly when the
  sum, the difference and the product of the operands, computed in unbounded integers, lie
  outside \<open>[MIN, MAX]\<close>; \<^verbatim>\<open>division_overflow\<close> is true exactly when \<open>l = MIN\<close> and
  \<open>r = -1\<close>, which for \<open>r \<noteq> 0\<close> is exactly when the truncated quotient lies outside
  \<open>[MIN, MAX]\<close>.
\<close>

theorem overflow_predicates_exact:
  fixes l r :: "'a::len word"
  shows "(addition_overflow l r \<longleftrightarrow> \<not> fits LENGTH('a) (sint l + sint r)) \<and>
         (subtraction_overflow l r \<longleftrightarrow> \<not> fits LENGTH('a) (sint l - sint r)) \<and>
         (multiplication_overflow l r \<longleftrightarrow> \<not> fits LENGTH('a) (sint l * sint r)) \<and>
         (division_overflow l r \<longleftrightarrow> sint l = - (2 ^ (LENGTH('a) - 1)) \<and> sint r = - 1) \<and>
         (r \<noteq> 0 \<longrightarrow> (division_overflow l r \<longleftrightarrow> \<not> fits LENGTH('a) (sint l sdiv sint r)))"
  using addition_overflow_iff[of l r] subtraction_overflow_iff[of l r]
    multiplication_overflow_iff[of l r] division_overflow_iff[of r l]
  by (simp add: division_overflow_def rep_min_iff sint_minus1_iff)

theorem overflow_predicates_exact_witness:
  "(2147483647 :: 32 word) \<noteq> 0 \<and>
   addition_overflow (2147483647 :: 32 word) 1 \<and>
   \<not> subtraction_overflow (2147483647 :: 32 word) 1 \<and>
   multiplication_overflow (- 9223372036854775808 :: 64 word) (- 1) \<and>
   division_overflow (- 9223372036854775808 :: 64 word) (- 1) \<and>
   \<not> division_overflow (- 2147483648 :: 32 word) 2147483647"
  using overflow_predicates_exact[of "2147483647 :: 32 word" 1]
    overflow_predicates_exact[of "- 9223372036854775808 :: 64 word" "- 1"]
    overflow_predicates_exact[of "- 2147483648 :: 32 word" 2147483647]
  by (simp add: fits_def)

section \<open>Multiplication and division\<close>

text \<open>
  Claim C2. The product has representation value \<open>a.value * b.value\<close> and scale
  \<open>a.scale + b.scale\<close>; neither operand is shifted. Both are computed in the machine
  types; where \<^verbatim>\<open>multiplication_overflow\<close> is false the value is the product of the two
  integers, and where the sum of the scales is an \<^verbatim>\<open>int32_t\<close> the scale is their sum.
\<close>

theorem times_value_scale:
  fixes a b :: "'r::len word fixed_point"
  shows "fp_value (op_times Rad a b) = fp_value a * fp_value b \<and>
         fp_scale (op_times Rad a b) = fp_scale a + fp_scale b \<and>
         (\<not> multiplication_overflow (fp_value a) (fp_value b) \<longrightarrow>
            sint (fp_value (op_times Rad a b)) = sint (fp_value a) * sint (fp_value b)) \<and>
         (fits 32 (sint (fp_scale a) + sint (fp_scale b)) \<longrightarrow>
            sint (fp_scale (op_times Rad a b)) = sint (fp_scale a) + sint (fp_scale b))"
  using sint_add_range[of "fp_scale a" "fp_scale b"]
  by (simp add: op_times_def from_scaled_integer_def multiplication_overflow_iff sint_mult_range)

theorem times_value_scale_witness:
  "\<not> multiplication_overflow (2 :: 32 word) 3 \<and> fits 32 (sint (- 1 :: 32 word) + sint (- 1 :: 32 word)) \<and>
   op_times BASE_10 \<lparr>fp_value = 2 :: 32 word, fp_scale = - 1\<rparr> \<lparr>fp_value = 3, fp_scale = - 1\<rparr>
     = \<lparr>fp_value = 6, fp_scale = - 2\<rparr> \<and>
   sint (fp_value (op_times BASE_10 \<lparr>fp_value = 2 :: 32 word, fp_scale = - 1\<rparr>
      \<lparr>fp_value = 3, fp_scale = - 1\<rparr>)) = 6 \<and>
   sint (fp_scale (op_times BASE_10 \<lparr>fp_value = 2 :: 32 word, fp_scale = - 1\<rparr>
      \<lparr>fp_value = 3, fp_scale = - 1\<rparr>)) = - 2"
proof -
  have m: "\<not> multiplication_overflow (2 :: 32 word) 3"
    by (simp add: multiplication_overflow_iff fits_def)
  have f: "fits 32 (sint (- 1 :: 32 word) + sint (- 1 :: 32 word))"
    by (simp add: fits_def)
  show ?thesis
    using m f times_value_scale[of BASE_10 "\<lparr>fp_value = 2 :: 32 word, fp_scale = - 1\<rparr>"
        "\<lparr>fp_value = 3, fp_scale = - 1\<rparr>"]
    by (simp add: op_times_def from_scaled_integer_def)
qed

lemma op_div_defined:
  fixes a b :: "'r::len word fixed_point"
  assumes "fp_value b \<noteq> 0" "\<not> division_overflow (fp_value a) (fp_value b)"
  shows "op_div Rad a b = Inr \<lparr>fp_value = word_sdiv (fp_value a) (fp_value b),
      fp_scale = fp_scale a - fp_scale b\<rparr>"
    and "sint (word_sdiv (fp_value a) (fp_value b)) = sint (fp_value a) sdiv sint (fp_value b)"
proof -
  show "op_div Rad a b = Inr \<lparr>fp_value = word_sdiv (fp_value a) (fp_value b),
      fp_scale = fp_scale a - fp_scale b\<rparr>"
    using assms by (simp add: op_div_def division_overflow_def from_scaled_integer_def)
  have "fits LENGTH('r) (sint (fp_value a) sdiv sint (fp_value b))"
    using assms division_overflow_iff[of "fp_value b" "fp_value a"] by simp
  then show "sint (word_sdiv (fp_value a) (fp_value b)) = sint (fp_value a) sdiv sint (fp_value b)"
    by (rule sint_word_sdiv_range)
qed

lemma op_div_overflow:
  "fp_value a = rep_min \<Longrightarrow> fp_value b = - 1 \<Longrightarrow> op_div Rad a b = Inl UndefinedBehaviour"
  by (simp add: op_div_def)

text \<open>
  Claim C3 does not hold as stated for every non-zero divisor: at \<open>MIN / -1\<close> the quotient
  truncated towards zero, \<open>-MIN\<close>, is not a value of \<^verbatim>\<open>Rep\<close>, the division of the header
  is undefined there and \<^verbatim>\<open>operator/\<close> returns no value.
\<close>

theorem div_counterexample:
  "(- 1 :: 32 word) \<noteq> 0 \<and>
   op_div BASE_10 \<lparr>fp_value = - 2147483648 :: 32 word, fp_scale = 0\<rparr> \<lparr>fp_value = - 1, fp_scale = 0\<rparr>
     = Inl UndefinedBehaviour \<and>
   \<not> fits 32 (sint (- 2147483648 :: 32 word) sdiv sint (- 1 :: 32 word))"
proof -
  have "(- 2147483648 :: 32 word) = rep_min" by (simp add: rep_min_def)
  then have "op_div BASE_10 \<lparr>fp_value = - 2147483648 :: 32 word, fp_scale = 0\<rparr>
      \<lparr>fp_value = - 1, fp_scale = 0\<rparr> = Inl UndefinedBehaviour"
    by (intro op_div_overflow) simp_all
  then show ?thesis by (simp add: fits_def)
qed

text \<open>
  Claim C3, amended. For \<open>b.value \<noteq> 0\<close> and not (\<open>a.value = MIN\<close> and \<open>b.value = -1\<close>), that
  is where \<^verbatim>\<open>division_overflow\<close> is false, the quotient \<open>a / b\<close> has as its representation
  value the quotient of the two integers truncated towards zero (\<open>sdiv\<close>) and the scale
  \<open>a.scale - b.scale\<close>. In particular \<^verbatim>\<open>FixedPoint(100, scale=0) / FixedPoint(3, scale=0)\<close>
  has value 33 at scale 0.
\<close>

theorem div_value_scale:
  fixes a b :: "'r::len word fixed_point"
  shows "(fp_value b \<noteq> 0 \<and> \<not> division_overflow (fp_value a) (fp_value b) \<longrightarrow>
           (\<exists>r. op_div Rad a b = Inr r \<and>
              fp_scale r = fp_scale a - fp_scale b \<and>
              sint (fp_value r) = sint (fp_value a) sdiv sint (fp_value b))) \<and>
         (\<exists>x y. make_fixed_point BASE_10 (100 :: 32 word) 0 = Inr x \<and>
            make_fixed_point BASE_10 (3 :: 32 word) 0 = Inr y \<and>
            op_div BASE_10 x y = Inr \<lparr>fp_value = 33 :: 32 word, fp_scale = 0\<rparr>)"
proof
  show "fp_value b \<noteq> 0 \<and> \<not> division_overflow (fp_value a) (fp_value b) \<longrightarrow>
           (\<exists>r. op_div Rad a b = Inr r \<and>
              fp_scale r = fp_scale a - fp_scale b \<and>
              sint (fp_value r) = sint (fp_value a) sdiv sint (fp_value b))"
    using op_div_defined(1)[where a = a and b = b and Rad = Rad]
      op_div_defined(2)[where a = a and b = b] by auto
  have "word_sdiv (100 :: 32 word) 3 = 33"
    by (simp add: word_sdiv_def signed_divide_int_def)
  moreover have "(100 :: 32 word) \<noteq> rep_min" by (simp add: rep_min_def)
  ultimately show "\<exists>x y. make_fixed_point BASE_10 (100 :: 32 word) 0 = Inr x \<and>
            make_fixed_point BASE_10 (3 :: 32 word) 0 = Inr y \<and>
            op_div BASE_10 x y = Inr \<lparr>fp_value = 33 :: 32 word, fp_scale = 0\<rparr>"
    by (simp add: make_fixed_point_def shift_def op_div_def from_scaled_integer_def)
qed

theorem div_value_scale_witness:
  "(2 :: 32 word) \<noteq> 0 \<and> \<not> division_overflow (- 7 :: 32 word) 2 \<and>
   (\<exists>r. op_div BASE_10 \<lparr>fp_value = - 7 :: 32 word, fp_scale = 2\<rparr> \<lparr>fp_value = 2, fp_scale = - 1\<rparr>
      = Inr r \<and> fp_scale r = 3 \<and> sint (fp_value r) = - 3)"
proof -
  have n: "(2 :: 32 word) \<noteq> 0" by simp
  have d: "\<not> division_overflow (- 7 :: 32 word) 2" by (simp add: division_overflow_def)
  have q: "(- 7 :: int) sdiv 2 = - 3" by (simp add: signed_divide_int_def)
  show ?thesis
    using n d q div_value_scale[where b = "\<lparr>fp_value = 2 :: 32 word, fp_scale = - 1\<rparr>"
        and a = "\<lparr>fp_value = - 7, fp_scale = 2\<rparr>" and Rad = BASE_10, THEN conjunct1]
    by simp
qed

section \<open>The left shift and concrete roundings\<close>

lemma sint_negate: "- (2 ^ 31) < sint s \<Longrightarrow> sint (negate s) = - sint s"
proof -
  assume a: "- (2 ^ 31) < sint s"
  have "sint (0 - s) = sint (0 :: 32 word) - sint s"
    using a sint_lt[of s] by (intro sint_diff_range) (simp add: fits_def)
  then show ?thesis by (simp add: negate_def)
qed

lemma std_pow_exact:
  assumes "0 \<le> sint t" "radix_int Rad ^ nat (sint t) < 2 ^ 53"
  shows "std_pow Rad t = Finite (of_int (radix_int Rad ^ nat (sint t)))"
proof -
  have "0 \<le> radix_int Rad ^ nat (sint t)" using radix_int_ge2[of Rad] by simp
  then have "\<bar>radix_int Rad ^ nat (sint t)\<bar> < 2 ^ 53" using assms(2) by simp
  then show ?thesis unfolding std_pow_nonneg[OF assms(1)] by (rule rtd_int)
qed

lemma radix_power_exp_bound:
  assumes "radix_int Rad ^ k < 2 ^ 53"
  shows "k < 53"
proof -
  have "(2::int) ^ k \<le> radix_int Rad ^ k" using radix_int_ge2[of Rad] by (intro power_mono) simp_all
  then have "(2::int) ^ k < 2 ^ 53" using assms by (rule le_less_trans)
  then show ?thesis by (rule power_less_imp_less_exp[rotated]) simp
qed

lemma left_shift_exact:
  fixes v :: "'a::len word"
  assumes s: "s <s 0" and p: "radix_int Rad ^ nat (- sint s) < 2 ^ 53"
    and v: "\<bar>sint v\<bar> * radix_int Rad ^ nat (- sint s) < 2 ^ 53"
  shows "left_shift Rad v s = Inr (Finite (of_int (sint v * radix_int Rad ^ nat (- sint s))))"
proof -
  define P where "P = radix_int Rad ^ nat (- sint s)"
  have s0: "sint s < 0" using s by (simp add: word_sless_alt)
  have "nat (- sint s) < 53" using p by (rule radix_power_exp_bound)
  then have n: "sint (negate s) = - sint s" using s0 by (intro sint_negate) simp
  have P1: "1 \<le> P" unfolding P_def using radix_int_ge2[of Rad] by simp
  have pw: "std_pow Rad (negate s) = Finite (of_int P)"
    using std_pow_exact[of "negate s" Rad] s0 p by (simp add: n P_def)
  have "\<bar>sint v\<bar> * 1 \<le> \<bar>sint v\<bar> * P" using P1 by (intro mult_left_mono) simp_all
  then have "\<bar>sint v\<bar> < 2 ^ 53" using v by (simp add: P_def)
  then have iv: "int_to_double v = Finite (of_int (sint v))" by (rule int_to_double_exact)
  have "\<bar>sint v * P\<bar> < 2 ^ 53" using v P1 by (simp add: abs_mult P_def)
  then have "round_to_double (of_int (sint v * P)) = Finite (of_int (sint v * P))"
    by (rule rtd_int)
  then have "double_mult (int_to_double v) (std_pow Rad (negate s)) = Finite (of_int (sint v * P))"
    by (simp add: iv pw del: of_int_sint)
  then show ?thesis using s by (simp add: left_shift_def P_def)
qed

lemma sless_zero_not: "s <s 0 \<Longrightarrow> s \<noteq> 0 \<and> \<not> 0 <s s"
  by (auto simp: word_sless_alt)

lemma shift_left_exact:
  fixes v :: "'a::len word"
  assumes s: "s <s 0" and p: "radix_int Rad ^ nat (- sint s) < 2 ^ 53"
    and v: "\<bar>sint v\<bar> * radix_int Rad ^ nat (- sint s) < 2 ^ 53"
    and f: "fits LENGTH('a) (sint v * radix_int Rad ^ nat (- sint s))"
  shows "shift Rad v s = Inr (word_of_int (sint v * radix_int Rad ^ nat (- sint s)))"
proof -
  define z where "z = sint v * radix_int Rad ^ nat (- sint s)"
  have l: "left_shift Rad v s = Inr (Finite (of_int z))"
    unfolding z_def by (rule left_shift_exact[OF s p v])
  have "double_to_int (Finite (of_int z)) = (Inr (word_of_int z) :: error + 'a word)"
    using f by (simp add: fits_def z_def[symmetric])
  then show ?thesis using sless_zero_not[OF s] by (simp add: shift_def l z_def[symmetric])
qed

lemma ilog2_unique:
  assumes "0 < x" "2 powi k \<le> x" "x < 2 powi (k + 1)"
  shows "ilog2 x = k"
  using ilog2_ge[OF assms(1,2)] ilog2_less[OF assms(1,3)] by simp

lemma rtd_eval:
  assumes x: "0 < x" and k: "2 powi k \<le> x" "x < 2 powi (k + 1)"
    and e: "e = max (k - 52) (- 1074)"
    and m: "round_half_even (x / 2 powi e) = m"
    and y: "y = of_int m * 2 powi e" "y < 2 ^ 1024"
  shows "round_to_double x = Finite y"
proof -
  have "double_exponent x = e" using x by (simp add: double_exponent_def ilog2_unique[OF x k] e)
  then show ?thesis using y m by (simp add: rtd_pos[OF x])
qed

lemma rhe_frac:
  assumes d: "0 < d"
  shows "round_half_even (of_int n / of_int d) =
     (if 2 * (n mod d) < d then n div d
      else if d < 2 * (n mod d) then n div d + 1
      else if even (n div d) then n div d else n div d + 1)"
proof -
  have dd: "(0::rat) < of_int d" using d by simp
  have f: "\<lfloor>rat_of_int n / of_int d\<rfloor> = n div d" by (rule floor_divide_of_int_eq)
  have "rat_of_int n = of_int (n div d * d + n mod d)" by simp
  then have "rat_of_int n = of_int (n div d) * of_int d + of_int (n mod d)"
    by (simp only: of_int_add of_int_mult)
  then have r: "rat_of_int n / of_int d - of_int (n div d) = of_int (n mod d) / of_int d"
    using dd by (simp add: field_simps)
  have a: "rat_of_int (n mod d) / of_int d < 1 / 2 \<longleftrightarrow> 2 * (n mod d) < d"
  proof -
    have "rat_of_int (n mod d) / of_int d < 1 / 2 \<longleftrightarrow> rat_of_int (2 * (n mod d)) < of_int d"
      using dd by (simp add: field_simps)
    then show ?thesis by (simp only: of_int_less_iff)
  qed
  have b: "1 / 2 < rat_of_int (n mod d) / of_int d \<longleftrightarrow> d < 2 * (n mod d)"
  proof -
    have "1 / 2 < rat_of_int (n mod d) / of_int d \<longleftrightarrow> rat_of_int d < of_int (2 * (n mod d))"
      using dd by (simp add: field_simps)
    then show ?thesis by (simp only: of_int_less_iff)
  qed
  show ?thesis unfolding round_half_even_def Let_def f r a b ..
qed

lemma rtd_c6a: "round_to_double 99999999999999999 = Finite 100000000000000000"
proof (rule rtd_eval[where k = 56 and e = 4 and m = 6250000000000000])
  show "round_half_even (99999999999999999 / 2 powi 4) = 6250000000000000"
    using rhe_frac[of 16 99999999999999999] by simp
qed simp_all

lemma rtd_c6b: "round_to_double 9007199254740993 = Finite 9007199254740992"
proof (rule rtd_eval[where k = 53 and e = 1 and m = 4503599627370496])
  show "round_half_even (9007199254740993 / 2 powi 1) = 4503599627370496"
    using rhe_frac[of 2 9007199254740993] by simp
qed simp_all

lemma rtd_10_16: "round_to_double 10000000000000000 = Finite 10000000000000000"
proof (rule rtd_eval[where k = 53 and e = 1 and m = 5000000000000000])
  show "round_half_even (10000000000000000 / 2 powi 1) = 5000000000000000"
    using rhe_frac[of 2 10000000000000000] by simp
qed simp_all

lemma rtd_2_54: "round_to_double 18014398509481984 = Finite 18014398509481984"
proof (rule rtd_eval[where k = 54 and e = 2 and m = 4503599627370496])
  show "round_half_even (18014398509481984 / 2 powi 2) = 4503599627370496"
    using rhe_frac[of 4 18014398509481984] by simp
qed simp_all

lemma std_pow_base2_1: "std_pow BASE_2 1 = Finite 2"
  using std_pow_exact[of 1 BASE_2] by simp

lemma std_pow_base10_1: "std_pow BASE_10 1 = Finite 10"
  using std_pow_exact[of 1 BASE_10] by simp

lemma right_shift_1e17:
  "right_shift BASE_10 (99999999999999999 :: 64 word) 1 = Inr (Finite 10000000000000000)"
  by (simp add: right_shift_def word_sless_alt int_to_double_def std_pow_base10_1 rtd_c6a
      rtd_10_16)

lemma shift_1e17:
  "shift BASE_10 (99999999999999999 :: 64 word) 1 = Inr 10000000000000000"
  by (simp add: shift_def word_sless_alt right_shift_1e17 truncate_rat_def)

text \<open>
  Claim C6 does not hold as stated: the shifts are computed in \<^verbatim>\<open>double\<close>, because
  \<^verbatim>\<open>std::pow\<close> returns one. For the \<^verbatim>\<open>int64_t\<close> operand \<open>10 ^ 17 - 1\<close> the conversion to
  \<^verbatim>\<open>double\<close> gives \<open>10 ^ 17\<close>, so \<^verbatim>\<open>right_shift\<close> by one decimal digit gives \<open>10 ^ 16\<close>
  where the integer division gives \<open>10 ^ 16 - 1\<close>; and for \<open>2 ^ 53 + 1\<close> \<^verbatim>\<open>left_shift\<close> by
  one binary digit gives \<open>2 ^ 54\<close> where the exact product is \<open>2 ^ 54 + 2\<close>.
\<close>

theorem shift_primitives_counterexample:
  "right_shift BASE_10 (99999999999999999 :: 64 word) 1 = Inr (Finite 10000000000000000) \<and>
   truncate_rat 10000000000000000 \<noteq>
     sint (99999999999999999 :: 64 word) sdiv radix_int BASE_10 ^ nat (sint (1 :: 32 word)) \<and>
   left_shift BASE_2 (9007199254740993 :: 64 word) (- 1) = Inr (Finite 18014398509481984) \<and>
   (18014398509481984 :: rat) \<noteq>
     of_int (sint (9007199254740993 :: 64 word) * radix_int BASE_2 ^ nat (- sint (- 1 :: 32 word)))"
proof (intro conjI)
  show "right_shift BASE_10 (99999999999999999 :: 64 word) 1 = Inr (Finite 10000000000000000)"
    by (rule right_shift_1e17)
  show "truncate_rat 10000000000000000 \<noteq>
     sint (99999999999999999 :: 64 word) sdiv radix_int BASE_10 ^ nat (sint (1 :: 32 word))"
    by (simp add: truncate_rat_def signed_divide_int_def)
  show "left_shift BASE_2 (9007199254740993 :: 64 word) (- 1) = Inr (Finite 18014398509481984)"
    by (simp add: left_shift_def word_sless_alt negate_def int_to_double_def std_pow_base2_1
        rtd_c6b rtd_2_54)
  show "(18014398509481984 :: rat) \<noteq>
     of_int (sint (9007199254740993 :: 64 word) * radix_int BASE_2 ^ nat (- sint (- 1 :: 32 word)))"
    by simp
qed

text \<open>
  Claim C6, amended. The shifts are computed in \<^verbatim>\<open>double\<close> arithmetic. For an integral
  operand \<open>v\<close> below \<open>2 ^ 53\<close> in magnitude (every \<^verbatim>\<open>int32_t\<close>) and every scale \<open>s > 0\<close>,
  \<^verbatim>\<open>right_shift(v, s)\<close> is a finite \<^verbatim>\<open>double\<close> whose integer part is \<open>v / R\<^sup>s\<close> truncated
  towards zero, which is what \<^verbatim>\<open>shift\<close> returns after its cast back to the operand type.
  For \<open>s < 0\<close> with \<open>R\<^bsup>-s\<^esup>\<close> and \<open>\<bar>v\<bar> * R\<^bsup>-s\<^esup>\<close> below \<open>2 ^ 53\<close>, \<^verbatim>\<open>left_shift(v, s)\<close> is
  exactly \<open>v * R\<^bsup>-s\<^esup>\<close>, and \<^verbatim>\<open>shift\<close> returns it when it is a value of the operand type.
\<close>

theorem shift_primitives_in_double:
  fixes v :: "'a::len word"
  shows "(0 <s s \<and> \<bar>sint v\<bar> < 2 ^ 53 \<longrightarrow>
           (\<exists>y. right_shift Rad v s = Inr (Finite y) \<and>
              truncate_rat y = sint v sdiv radix_int Rad ^ nat (sint s)) \<and>
           (\<exists>w. shift Rad v s = Inr w \<and> sint w = sint v sdiv radix_int Rad ^ nat (sint s))) \<and>
         (s <s 0 \<and> radix_int Rad ^ nat (- sint s) < 2 ^ 53 \<and>
          \<bar>sint v\<bar> * radix_int Rad ^ nat (- sint s) < 2 ^ 53 \<longrightarrow>
           left_shift Rad v s = Inr (Finite (of_int (sint v * radix_int Rad ^ nat (- sint s)))) \<and>
           (fits LENGTH('a) (sint v * radix_int Rad ^ nat (- sint s)) \<longrightarrow>
              (\<exists>w. shift Rad v s = Inr w \<and> sint w = sint v * radix_int Rad ^ nat (- sint s))))"
proof (intro conjI impI)
  assume "0 <s s \<and> \<bar>sint v\<bar> < 2 ^ 53"
  then show "\<exists>y. right_shift Rad v s = Inr (Finite y) \<and>
      truncate_rat y = sint v sdiv radix_int Rad ^ nat (sint s)"
    by (intro right_shift_trunc) simp_all
next
  assume "0 <s s \<and> \<bar>sint v\<bar> < 2 ^ 53"
  then show "\<exists>w. shift Rad v s = Inr w \<and> sint w = sint v sdiv radix_int Rad ^ nat (sint s)"
    by (intro shift_right_trunc) simp_all
next
  assume "s <s 0 \<and> radix_int Rad ^ nat (- sint s) < 2 ^ 53 \<and>
          \<bar>sint v\<bar> * radix_int Rad ^ nat (- sint s) < 2 ^ 53"
  then show "left_shift Rad v s = Inr (Finite (of_int (sint v * radix_int Rad ^ nat (- sint s))))"
    by (intro left_shift_exact) simp_all
next
  assume a: "s <s 0 \<and> radix_int Rad ^ nat (- sint s) < 2 ^ 53 \<and>
          \<bar>sint v\<bar> * radix_int Rad ^ nat (- sint s) < 2 ^ 53"
    and f: "fits LENGTH('a) (sint v * radix_int Rad ^ nat (- sint s))"
  have "shift Rad v s = Inr (word_of_int (sint v * radix_int Rad ^ nat (- sint s)))"
    using a f by (intro shift_left_exact) simp_all
  moreover have "sint (word_of_int (sint v * radix_int Rad ^ nat (- sint s)) :: 'a word)
      = sint v * radix_int Rad ^ nat (- sint s)"
    using f by (intro sint_word_of_int_range) (simp_all add: fits_def)
  ultimately show "\<exists>w. shift Rad v s = Inr w \<and> sint w = sint v * radix_int Rad ^ nat (- sint s)"
    by blast
qed

theorem shift_primitives_in_double_witness:
  "(0 :: 32 word) <s 1 \<and> \<bar>sint (- 123 :: 32 word)\<bar> < 2 ^ 53 \<and>
   shift BASE_10 (- 123 :: 32 word) 1 = Inr (- 12) \<and>
   (- 2 :: 32 word) <s 0 \<and> radix_int BASE_10 ^ nat (- sint (- 2 :: 32 word)) < 2 ^ 53 \<and>
   \<bar>sint (- 123 :: 32 word)\<bar> * radix_int BASE_10 ^ nat (- sint (- 2 :: 32 word)) < 2 ^ 53 \<and>
   fits LENGTH(32) (sint (- 123 :: 32 word) * radix_int BASE_10 ^ nat (- sint (- 2 :: 32 word))) \<and>
   left_shift BASE_10 (- 123 :: 32 word) (- 2) = Inr (Finite (- 12300)) \<and>
   shift BASE_10 (- 123 :: 32 word) (- 2) = Inr (- 12300)"
proof -
  have h1: "(0 :: 32 word) <s 1 \<and> \<bar>sint (- 123 :: 32 word)\<bar> < 2 ^ 53"
    by (simp add: word_sless_alt)
  have h2: "(- 2 :: 32 word) <s 0 \<and> radix_int BASE_10 ^ nat (- sint (- 2 :: 32 word)) < 2 ^ 53 \<and>
      \<bar>sint (- 123 :: 32 word)\<bar> * radix_int BASE_10 ^ nat (- sint (- 2 :: 32 word)) < 2 ^ 53"
    by (simp add: word_sless_alt)
  have h3: "fits LENGTH(32) (sint (- 123 :: 32 word) * radix_int BASE_10 ^ nat (- sint (- 2 :: 32 word)))"
    by (simp add: fits_def)
  have q: "(- 123 :: int) sdiv 10 = - 12" by (simp add: signed_divide_int_def)
  note t = shift_primitives_in_double[of 1 "- 123 :: 32 word" BASE_10, THEN conjunct1, THEN mp, OF h1]
  note u = shift_primitives_in_double[of "- 2" "- 123 :: 32 word" BASE_10, THEN conjunct2, THEN mp, OF h2]
  have a: "shift BASE_10 (- 123 :: 32 word) 1 = Inr (- 12)"
    using t[THEN conjunct2] q by (auto simp: sint_eq_iff)
  have b: "left_shift BASE_10 (- 123 :: 32 word) (- 2) = Inr (Finite (- 12300))"
    using u[THEN conjunct1] by simp
  have c: "shift BASE_10 (- 123 :: 32 word) (- 2) = Inr (- 12300)"
    using u[THEN conjunct2, THEN mp, OF h3] by (auto simp: sint_eq_iff)
  show ?thesis using h1 h2 h3 a b c by simp
qed

section \<open>Addition, subtraction and equality\<close>

lemma scale_diff_pos:
  fixes s t :: scale_type
  assumes "s <s t" "sint t - sint s < 2 ^ 31"
  shows "sint (t - s) = sint t - sint s" "0 <s t - s" "t - s \<noteq> 0"
proof -
  have lt: "sint s < sint t" using assms(1) by (simp add: word_sless_alt)
  have "fits LENGTH(32) (sint t - sint s)" using assms(2) lt by (simp add: fits_def)
  then show d: "sint (t - s) = sint t - sint s" by (rule sint_diff_range)
  then show p: "0 <s t - s" using lt by (simp add: word_sless_alt)
  then show "t - s \<noteq> 0" by auto
qed

lemma word_of_int_sint_eq: "sint w = z \<Longrightarrow> w = word_of_int z"
  by auto

lemma shift_is_spec_right_shift:
  fixes v :: "'r::len word"
  assumes lt: "s <s t" and d: "sint t - sint s < 2 ^ 31" and v: "\<bar>sint v\<bar> < 2 ^ 53"
  shows "shift Rad v (t - s) = Inr (spec_right_shift Rad v (nat (sint t - sint s)))"
proof -
  obtain w where w: "shift Rad v (t - s) = Inr w"
      "sint w = sint v sdiv radix_int Rad ^ nat (sint (t - s))"
    using shift_right_trunc[OF scale_diff_pos(2)[OF lt d] v, of Rad] by blast
  have "w = word_of_int (sint v sdiv radix_int Rad ^ nat (sint t - sint s))"
    using w(2) unfolding scale_diff_pos(1)[OF lt d] by (rule word_of_int_sint_eq)
  then show ?thesis using w(1) by (simp add: spec_right_shift_def)
qed

lemma spec_scale_cases:
  "fp_scale a <s fp_scale b \<Longrightarrow> spec_scale a b = fp_scale b"
  "\<not> fp_scale a <s fp_scale b \<Longrightarrow> spec_scale a b = fp_scale a"
  using sless_total[of "fp_scale a" "fp_scale b"]
  by (auto simp: spec_scale_def word_sless_alt word_sle_eq)

lemma spec_scale_commute: "spec_scale a b = spec_scale b a"
  using sless_total[of "fp_scale a" "fp_scale b"]
  by (auto simp: spec_scale_def word_sless_alt word_sle_eq)

lemma result_scale_spec: "result_scale a b = spec_scale a b"
  by (auto simp: result_scale_def spec_scale_def word_sless_alt word_sle_eq)

lemma spec_scale_max:
  "sint (spec_scale a b) = max (sint (fp_scale a)) (sint (fp_scale b))"
  by (auto simp: spec_scale_def word_sle_eq max_def)

lemma lhsv_spec:
  fixes a b :: "'r::len word fixed_point"
  assumes d: "sint (fp_scale b) - sint (fp_scale a) < 2 ^ 31"
    and v: "fp_scale a <s fp_scale b \<Longrightarrow> \<bar>sint (fp_value a)\<bar> < 2 ^ 53"
  shows "lhsv Rad a b = Inr (spec_rescale Rad a (spec_scale a b))"
proof (cases "fp_scale a <s fp_scale b")
  case True
  then show ?thesis
    using shift_is_spec_right_shift[OF True d v[OF True], of Rad]
    by (simp add: lhsv_def spec_rescale_def spec_scale_cases)
next
  case False
  then show ?thesis by (simp add: lhsv_def spec_rescale_def spec_scale_cases)
qed

lemma rhsv_spec:
  fixes a b :: "'r::len word fixed_point"
  assumes d: "sint (fp_scale a) - sint (fp_scale b) < 2 ^ 31"
    and v: "fp_scale b <s fp_scale a \<Longrightarrow> \<bar>sint (fp_value b)\<bar> < 2 ^ 53"
  shows "rhsv Rad a b = Inr (spec_rescale Rad b (spec_scale a b))"
  using lhsv_spec[of a b Rad, OF d v] by (simp add: rhsv_swap spec_scale_commute[of b a])

lemma aligned_defined:
  fixes a b :: "'r::len word fixed_point"
  assumes d: "\<bar>sint (fp_scale a) - sint (fp_scale b)\<bar> < 2 ^ 31" and len: "LENGTH('r) \<le> 64"
  shows "\<exists>l r. lhsv Rad a b = Inr l \<and> rhsv Rad a b = Inr r"
proof -
  have len': "LENGTH('r) \<le> 1024" using len by simp
  have l: "\<exists>l. lhsv Rad a b = Inr l"
  proof (cases "fp_scale a <s fp_scale b")
    case True
    have "sint (fp_scale b) - sint (fp_scale a) < 2 ^ 31" using d by linarith
    then have "0 <s fp_scale b - fp_scale a" using True by (intro scale_diff_pos(2))
    then show ?thesis using True shift_right_defined[OF _ len', of "fp_scale b - fp_scale a" Rad "fp_value a"]
      by (simp add: lhsv_def)
  next
    case False
    then show ?thesis by (simp add: lhsv_def)
  qed
  have r: "\<exists>r. rhsv Rad a b = Inr r"
  proof (cases "fp_scale b <s fp_scale a")
    case True
    have "sint (fp_scale a) - sint (fp_scale b) < 2 ^ 31" using d by linarith
    then have "0 <s fp_scale a - fp_scale b" using True by (intro scale_diff_pos(2))
    then show ?thesis using True shift_right_defined[OF _ len', of "fp_scale a - fp_scale b" Rad "fp_value b"]
      by (simp add: rhsv_def)
  next
    case False
    then show ?thesis by (simp add: rhsv_def)
  qed
  show ?thesis using l r by blast
qed

text \<open>
  Claim C1 does not hold as stated for every pair: the operand with the smaller scale is
  shifted by the header's \<^verbatim>\<open>right_shift\<close>, computed in \<^verbatim>\<open>double\<close>, which is not the
  right shift in radix \<open>R\<close> for an \<^verbatim>\<open>int64_t\<close> value beyond \<open>2 ^ 53\<close>. In base 10,
  \<open>10 ^ 17 - 1\<close> at scale \<open>-1\<close> plus \<open>1\<close> at scale \<open>0\<close> is \<open>10 ^ 16 + 1\<close> at scale \<open>0\<close>,
  where the right shift by one digit and the addition give \<open>10 ^ 16\<close>.
\<close>

theorem plus_minus_counterexample:
  "op_plus BASE_10 \<lparr>fp_value = 99999999999999999 :: 64 word, fp_scale = - 1\<rparr>
      \<lparr>fp_value = 1, fp_scale = 0\<rparr>
     = Inr \<lparr>fp_value = 10000000000000001, fp_scale = 0\<rparr> \<and>
   spec_plus BASE_10 \<lparr>fp_value = 99999999999999999 :: 64 word, fp_scale = - 1\<rparr>
      \<lparr>fp_value = 1, fp_scale = 0\<rparr>
     = \<lparr>fp_value = 10000000000000000, fp_scale = 0\<rparr> \<and>
   op_minus BASE_10 \<lparr>fp_value = 99999999999999999 :: 64 word, fp_scale = - 1\<rparr>
      \<lparr>fp_value = 1, fp_scale = 0\<rparr>
     = Inr \<lparr>fp_value = 9999999999999999, fp_scale = 0\<rparr> \<and>
   spec_minus BASE_10 \<lparr>fp_value = 99999999999999999 :: 64 word, fp_scale = - 1\<rparr>
      \<lparr>fp_value = 1, fp_scale = 0\<rparr>
     = \<lparr>fp_value = 9999999999999998, fp_scale = 0\<rparr> \<and>
   (10000000000000001 :: 64 word) \<noteq> 10000000000000000 \<and>
   (9999999999999999 :: 64 word) \<noteq> 9999999999999998"
proof -
  have q: "(99999999999999999 :: int) sdiv 10 = 9999999999999999"
    by (simp add: signed_divide_int_def)
  have lt: "(- 1 :: 32 word) <s 0" "\<not> (0 :: 32 word) <s - 1" "(- 1 :: 32 word) <=s 0"
    by (simp_all add: word_sless_alt word_sle_eq)
  have r: "spec_rescale BASE_10 \<lparr>fp_value = 99999999999999999 :: 64 word, fp_scale = - 1\<rparr> 0
      = 9999999999999999"
    using lt q by (simp add: spec_rescale_def spec_right_shift_def)
  have r1: "spec_rescale BASE_10 \<lparr>fp_value = 1 :: 64 word, fp_scale = 0\<rparr> 0 = 1"
    by (simp add: spec_rescale_def)
  show ?thesis
    using lt
    by (simp add: op_plus_def op_minus_def lhsv_def rhsv_def result_scale_def
        from_scaled_integer_def shift_1e17 spec_plus_def spec_minus_def spec_scale_def r r1)
qed

text \<open>
  Claim C1, amended. For operands of the same \<^verbatim>\<open>(Rep, Radix)\<close> whose scale difference is
  an \<^verbatim>\<open>int32_t\<close> (its overflow is undefined behaviour in the header): the result scale is
  the larger scale, and \<open>a + b\<close> and \<open>a - b\<close> return a value at that scale. Where the
  operand with the smaller scale has a representation value below \<open>2 ^ 53\<close> in magnitude
  (every \<^verbatim>\<open>int32_t\<close>), \<open>a + b\<close> and \<open>a - b\<close> are what the alignment rule of the
  specification gives: that operand's value is right-shifted by the scale difference in
  radix \<open>R\<close> (divided by the power of the radix, truncated towards zero), the other
  operand's value is unchanged, the aligned values are added or subtracted in \<^verbatim>\<open>Rep\<close>,
  and the pair is installed without a further shift.
\<close>

theorem plus_minus_align:
  fixes a b :: "'r::len word fixed_point"
  assumes d: "\<bar>sint (fp_scale a) - sint (fp_scale b)\<bar> < 2 ^ 31"
  shows "sint (spec_scale a b) = max (sint (fp_scale a)) (sint (fp_scale b)) \<and>
    (LENGTH('r) \<le> 64 \<longrightarrow>
       (\<exists>x. op_plus Rad a b = Inr x \<and> fp_scale x = spec_scale a b) \<and>
       (\<exists>x. op_minus Rad a b = Inr x \<and> fp_scale x = spec_scale a b)) \<and>
    ((fp_scale a <s fp_scale b \<and> \<bar>sint (fp_value a)\<bar> < 2 ^ 53) \<or>
     (fp_scale b <s fp_scale a \<and> \<bar>sint (fp_value b)\<bar> < 2 ^ 53) \<or>
     fp_scale a = fp_scale b \<longrightarrow>
       op_plus Rad a b = Inr (spec_plus Rad a b) \<and>
       op_minus Rad a b = Inr (spec_minus Rad a b))"
proof (intro conjI impI)
  show "sint (spec_scale a b) = max (sint (fp_scale a)) (sint (fp_scale b))"
    by (rule spec_scale_max)
next
  assume len: "LENGTH('r) \<le> 64"
  obtain l r where lr: "lhsv Rad a b = Inr l" "rhsv Rad a b = Inr r"
    using aligned_defined[OF d len, of Rad] by blast
  show "\<exists>x. op_plus Rad a b = Inr x \<and> fp_scale x = spec_scale a b"
    by (simp add: op_plus_def lr from_scaled_integer_def result_scale_spec)
  show "\<exists>x. op_minus Rad a b = Inr x \<and> fp_scale x = spec_scale a b"
    by (simp add: op_minus_def lr from_scaled_integer_def result_scale_spec)
next
  assume small: "(fp_scale a <s fp_scale b \<and> \<bar>sint (fp_value a)\<bar> < 2 ^ 53) \<or>
     (fp_scale b <s fp_scale a \<and> \<bar>sint (fp_value b)\<bar> < 2 ^ 53) \<or>
     fp_scale a = fp_scale b"
  have da: "sint (fp_scale b) - sint (fp_scale a) < 2 ^ 31"
    and db: "sint (fp_scale a) - sint (fp_scale b) < 2 ^ 31"
    using d by linarith+
  have va: "\<bar>sint (fp_value a)\<bar> < 2 ^ 53" if "fp_scale a <s fp_scale b"
    using small that sless_asym[OF that] by auto
  have vb: "\<bar>sint (fp_value b)\<bar> < 2 ^ 53" if "fp_scale b <s fp_scale a"
    using small that sless_asym[OF that] by auto
  have l: "lhsv Rad a b = Inr (spec_rescale Rad a (spec_scale a b))"
    using da va by (rule lhsv_spec)
  have r: "rhsv Rad a b = Inr (spec_rescale Rad b (spec_scale a b))"
    using db vb by (rule rhsv_spec)
  show "op_plus Rad a b = Inr (spec_plus Rad a b)"
    by (simp add: op_plus_def l r from_scaled_integer_def result_scale_spec spec_plus_def)
  show "op_minus Rad a b = Inr (spec_minus Rad a b)"
    by (simp add: op_minus_def l r from_scaled_integer_def result_scale_spec spec_minus_def)
qed

theorem plus_minus_align_witness:
  "\<bar>sint (- 2 :: 32 word) - sint (- 1 :: 32 word)\<bar> < 2 ^ 31 \<and> LENGTH(32) \<le> 64 \<and>
   (- 2 :: 32 word) <s - 1 \<and> \<bar>sint (123 :: 32 word)\<bar> < 2 ^ 53 \<and>
   op_plus BASE_10 \<lparr>fp_value = 123 :: 32 word, fp_scale = - 2\<rparr> \<lparr>fp_value = 25, fp_scale = - 1\<rparr>
     = Inr \<lparr>fp_value = 37, fp_scale = - 1\<rparr> \<and>
   op_minus BASE_10 \<lparr>fp_value = 123 :: 32 word, fp_scale = - 2\<rparr> \<lparr>fp_value = 25, fp_scale = - 1\<rparr>
     = Inr \<lparr>fp_value = - 13, fp_scale = - 1\<rparr>"
proof -
  have h: "\<bar>sint (fp_scale \<lparr>fp_value = 123 :: 32 word, fp_scale = - 2\<rparr>) -
      sint (fp_scale \<lparr>fp_value = 25 :: 32 word, fp_scale = - 1\<rparr>)\<bar> < 2 ^ 31"
    by simp
  have lt: "(- 2 :: 32 word) <s - 1" "(- 2 :: 32 word) <=s - 1" "\<not> (- 1 :: 32 word) <s - 1"
    by (simp_all add: word_sless_alt word_sle_eq)
  have q: "(123 :: int) sdiv 10 = 12" by (simp add: signed_divide_int_def)
  have sp: "spec_plus BASE_10 \<lparr>fp_value = 123 :: 32 word, fp_scale = - 2\<rparr>
      \<lparr>fp_value = 25, fp_scale = - 1\<rparr> = \<lparr>fp_value = 37, fp_scale = - 1\<rparr>"
    using lt q by (simp add: spec_plus_def spec_scale_def spec_rescale_def spec_right_shift_def)
  have sm: "spec_minus BASE_10 \<lparr>fp_value = 123 :: 32 word, fp_scale = - 2\<rparr>
      \<lparr>fp_value = 25, fp_scale = - 1\<rparr> = \<lparr>fp_value = - 13, fp_scale = - 1\<rparr>"
    using lt q by (simp add: spec_minus_def spec_scale_def spec_rescale_def spec_right_shift_def)
  show ?thesis
    using plus_minus_align[OF h, where Rad = BASE_10, THEN conjunct2, THEN conjunct2] lt(1)
    by (simp add: sp sm)
qed

lemma op_eq_lower_lhs:
  assumes lt: "fp_scale a <s fp_scale b"
  shows "op_eq Rad a b =
     (case shift Rad (fp_value a) (fp_scale b - fp_scale a) of
        Inl e \<Rightarrow> Inl e
      | Inr l \<Rightarrow> Inr (l = fp_value b))"
  using lt sless_asym[OF lt] by (auto simp: op_eq_def lhsv_def rhsv_def split: sum.splits)

text \<open>
  Claim C9 does not hold as stated for every two values: the comparison uses the header's
  \<^verbatim>\<open>right_shift\<close>, computed in \<^verbatim>\<open>double\<close>. For the \<^verbatim>\<open>int64_t\<close> value \<open>10 ^ 17 - 1\<close> at
  scale \<open>-1\<close> in base 10, the right shift by one digit yields \<open>10 ^ 16 - 1\<close>, yet the value
  compares unequal to \<open>10 ^ 16 - 1\<close> at scale \<open>0\<close> and equal to \<open>10 ^ 16\<close> at scale \<open>0\<close>.
\<close>

theorem eq_counterexample:
  "(- 1 :: 32 word) <s 0 \<and>
   spec_right_shift BASE_10 (99999999999999999 :: 64 word) 1 = 9999999999999999 \<and>
   op_eq BASE_10 \<lparr>fp_value = 99999999999999999 :: 64 word, fp_scale = - 1\<rparr>
      \<lparr>fp_value = 9999999999999999, fp_scale = 0\<rparr> = Inr False \<and>
   op_eq BASE_10 \<lparr>fp_value = 99999999999999999 :: 64 word, fp_scale = - 1\<rparr>
      \<lparr>fp_value = 10000000000000000, fp_scale = 0\<rparr> = Inr True \<and>
   (10000000000000000 :: 64 word) \<noteq> 9999999999999999"
proof -
  have q: "(99999999999999999 :: int) sdiv 10 = 9999999999999999"
    by (simp add: signed_divide_int_def)
  have lt: "(- 1 :: 32 word) <s 0" by (simp add: word_sless_alt)
  have e: "op_eq BASE_10 \<lparr>fp_value = 99999999999999999 :: 64 word, fp_scale = - 1\<rparr>
      \<lparr>fp_value = v, fp_scale = 0\<rparr> = Inr (10000000000000000 = v)" for v
    using lt by (simp add: op_eq_lower_lhs shift_1e17)
  show ?thesis using q lt by (simp add: e spec_right_shift_def)
qed

text \<open>
  Claim C9, amended. Equality is lossy across scales. For \<open>a.scale < b.scale\<close> (their
  difference an \<^verbatim>\<open>int32_t\<close>) and \<open>a.value\<close> below \<open>2 ^ 53\<close> in magnitude (every
  \<^verbatim>\<open>int32_t\<close>), \<open>a == b\<close> is true exactly when \<open>a.value\<close> right-shifted by
  \<open>b.scale - a.scale\<close> digits (divided by the power of the radix, truncated towards zero) is
  \<open>b.value\<close>, whatever the discarded digits are. So \<open>1.23\<close> (123 at scale \<open>-2\<close>) and \<open>1.2\<close>
  (12 at scale \<open>-1\<close>), two different rational numbers, compare equal.
\<close>

theorem eq_lossy_across_scales:
  fixes a b :: "'r::len word fixed_point"
  shows "(fp_scale a <s fp_scale b \<and> sint (fp_scale b) - sint (fp_scale a) < 2 ^ 31 \<and>
          \<bar>sint (fp_value a)\<bar> < 2 ^ 53 \<longrightarrow>
            op_eq Rad a b = Inr (spec_right_shift Rad (fp_value a)
                (nat (sint (fp_scale b) - sint (fp_scale a))) = fp_value b) \<and>
            op_eq Rad a b = Inr (sint (fp_value a) sdiv
                radix_int Rad ^ nat (sint (fp_scale b) - sint (fp_scale a)) = sint (fp_value b))) \<and>
         op_eq BASE_10 \<lparr>fp_value = 123 :: 32 word, fp_scale = - 2\<rparr> \<lparr>fp_value = 12, fp_scale = - 1\<rparr>
           = Inr True \<and>
         rational_value BASE_10 \<lparr>fp_value = 123 :: 32 word, fp_scale = - 2\<rparr>
           \<noteq> rational_value BASE_10 \<lparr>fp_value = 12 :: 32 word, fp_scale = - 1\<rparr>"
proof -
  have gen: "op_eq Rad x y = Inr (spec_right_shift Rad (fp_value x)
                (nat (sint (fp_scale y) - sint (fp_scale x))) = fp_value y) \<and>
            op_eq Rad x y = Inr (sint (fp_value x) sdiv
                radix_int Rad ^ nat (sint (fp_scale y) - sint (fp_scale x)) = sint (fp_value y))"
    if lt: "fp_scale x <s fp_scale y" and d: "sint (fp_scale y) - sint (fp_scale x) < 2 ^ 31"
      and v: "\<bar>sint (fp_value x)\<bar> < 2 ^ 53"
    for x y :: "'s::len word fixed_point" and Rad
  proof -
    define t where "t = sint (fp_value x) sdiv radix_int Rad ^ nat (sint (fp_scale y) - sint (fp_scale x))"
    obtain w where w: "shift Rad (fp_value x) (fp_scale y - fp_scale x) = Inr w" "sint w = t"
      using shift_right_trunc[OF scale_diff_pos(2)[OF lt d] v, of Rad]
      unfolding scale_diff_pos(1)[OF lt d] t_def by blast
    have ws: "w = spec_right_shift Rad (fp_value x) (nat (sint (fp_scale y) - sint (fp_scale x)))"
      using w(2) unfolding spec_right_shift_def t_def by (rule word_of_int_sint_eq)
    have e: "op_eq Rad x y = Inr (w = fp_value y)"
      by (simp add: op_eq_lower_lhs[OF lt] w(1))
    have "(w = fp_value y) = (t = sint (fp_value y))"
      using w(2) by (simp add: sint_eq_iff[of w "fp_value y"])
    then show ?thesis using e ws unfolding t_def by simp
  qed
  have ex: "op_eq BASE_10 \<lparr>fp_value = 123 :: 32 word, fp_scale = - 2\<rparr> \<lparr>fp_value = 12, fp_scale = - 1\<rparr>
           = Inr True"
  proof -
    have "(123 :: int) sdiv 10 = 12" by (simp add: signed_divide_int_def)
    then show ?thesis
      using gen[of "\<lparr>fp_value = 123 :: 32 word, fp_scale = - 2\<rparr>"
          "\<lparr>fp_value = 12, fp_scale = - 1\<rparr>" BASE_10, THEN conjunct2]
      by (simp add: word_sless_alt)
  qed
  have ne: "rational_value BASE_10 \<lparr>fp_value = 123 :: 32 word, fp_scale = - 2\<rparr>
           \<noteq> rational_value BASE_10 \<lparr>fp_value = 12 :: 32 word, fp_scale = - 1\<rparr>"
    by (simp add: rational_value_def)
  show ?thesis using gen[of a b Rad] ex ne by blast
qed

theorem eq_lossy_across_scales_witness:
  "(- 2 :: 32 word) <s - 1 \<and> sint (- 1 :: 32 word) - sint (- 2 :: 32 word) < 2 ^ 31 \<and>
   \<bar>sint (129 :: 64 word)\<bar> < 2 ^ 53 \<and>
   op_eq BASE_10 \<lparr>fp_value = 129 :: 64 word, fp_scale = - 2\<rparr> \<lparr>fp_value = 12, fp_scale = - 1\<rparr>
     = Inr True \<and>
   op_eq BASE_10 \<lparr>fp_value = 129 :: 64 word, fp_scale = - 2\<rparr> \<lparr>fp_value = 13, fp_scale = - 1\<rparr>
     = Inr False"
proof -
  have q: "(129 :: int) sdiv 10 = 12" by (simp add: signed_divide_int_def)
  have s: "(- 2 :: 32 word) <s - 1" by (simp add: word_sless_alt)
  have h: "fp_scale \<lparr>fp_value = 129 :: 64 word, fp_scale = - 2\<rparr> <s fp_scale \<lparr>fp_value = v :: 64 word, fp_scale = - 1\<rparr> \<and>
      sint (fp_scale \<lparr>fp_value = v :: 64 word, fp_scale = - 1\<rparr>) -
        sint (fp_scale \<lparr>fp_value = 129 :: 64 word, fp_scale = - 2\<rparr>) < 2 ^ 31 \<and>
      \<bar>sint (fp_value \<lparr>fp_value = 129 :: 64 word, fp_scale = - 2\<rparr>)\<bar> < 2 ^ 53" for v
    using s by simp
  have t: "op_eq BASE_10 \<lparr>fp_value = 129 :: 64 word, fp_scale = - 2\<rparr> \<lparr>fp_value = 12, fp_scale = - 1\<rparr>
     = Inr True"
    using q eq_lossy_across_scales[of "\<lparr>fp_value = 129 :: 64 word, fp_scale = - 2\<rparr>"
        "\<lparr>fp_value = 12, fp_scale = - 1\<rparr>" BASE_10, THEN conjunct1, THEN mp, OF h, THEN conjunct2]
    by simp
  have f: "op_eq BASE_10 \<lparr>fp_value = 129 :: 64 word, fp_scale = - 2\<rparr> \<lparr>fp_value = 13, fp_scale = - 1\<rparr>
     = Inr False"
    using q eq_lossy_across_scales[of "\<lparr>fp_value = 129 :: 64 word, fp_scale = - 2\<rparr>"
        "\<lparr>fp_value = 13, fp_scale = - 1\<rparr>" BASE_10, THEN conjunct1, THEN mp, OF h, THEN conjunct2]
    by simp
  show ?thesis using s t f by simp
qed

section \<open>Pre-increment\<close>

lemma op_plus_same_scale:
  "fp_scale a = fp_scale b \<Longrightarrow>
     op_plus Rad a b = Inr \<lparr>fp_value = fp_value a + fp_value b, fp_scale = fp_scale a\<rparr>"
  by (simp add: op_plus_def rhsv_def lhsv_def result_scale_def from_scaled_integer_def)

lemma scast_word_of_int_32:
  "fits 32 z \<Longrightarrow> (scast (word_of_int z :: 32 word) :: 'r::len word) = word_of_int z"
  by (simp add: scast_eq sint_word_of_int_range fits_def)

lemma make_one_zero:
  "(make_fixed_point Rad (1 :: 32 word) 0 :: error + 'r::len word fixed_point)
     = Inr \<lparr>fp_value = 1, fp_scale = 0\<rparr>"
  by (simp add: make_fixed_point_def shift_def scast_eq)

lemma make_one_pos:
  assumes "0 <s s"
  shows "(make_fixed_point Rad (1 :: 32 word) s :: error + 'r::len word fixed_point)
     = Inr \<lparr>fp_value = 0, fp_scale = s\<rparr>"
proof -
  have "0 < sint s" using assms by (simp add: word_sless_alt)
  then have "2 \<le> radix_int Rad ^ nat (sint s)" by (intro radix_power_ge2) simp
  then have "(1 :: int) sdiv radix_int Rad ^ nat (sint s) = 0" by (intro sdiv_small) simp
  moreover obtain w where "shift Rad (1 :: 32 word) s = Inr w"
      "sint w = sint (1 :: 32 word) sdiv radix_int Rad ^ nat (sint s)"
    using shift_right_trunc[OF assms, where v = "1 :: 32 word" and Rad = Rad] by auto
  ultimately have "shift Rad (1 :: 32 word) s = Inr 0" by (simp add: sint_eq_iff[of w 0])
  then show ?thesis by (simp add: make_fixed_point_def)
qed

lemma make_one_neg:
  assumes s: "s <s 0" and p: "radix_int Rad ^ nat (- sint s) < 2 ^ 31"
  shows "(make_fixed_point Rad (1 :: 32 word) s :: error + 'r::len word fixed_point)
     = Inr \<lparr>fp_value = word_of_int (radix_int Rad ^ nat (- sint s)), fp_scale = s\<rparr>"
proof -
  define P where "P = radix_int Rad ^ nat (- sint s)"
  have P0: "0 \<le> P" unfolding P_def using radix_int_ge2[of Rad] by simp
  have P31: "P < 2 ^ 31" using p by (simp add: P_def)
  then have P53: "P < 2 ^ 53" by (rule less_trans) simp
  have f: "fits 32 P" using P0 P31 by (simp add: fits_def)
  have "shift Rad (1 :: 32 word) s = Inr (word_of_int (sint (1 :: 32 word) * P))"
    unfolding P_def using s P53 f by (intro shift_left_exact) (simp_all add: P_def)
  then have "shift Rad (1 :: 32 word) s = Inr (word_of_int P)" by simp
  then have "(make_fixed_point Rad (1 :: 32 word) s :: error + 'r word fixed_point)
     = Inr \<lparr>fp_value = word_of_int P, fp_scale = s\<rparr>"
    using f by (simp add: make_fixed_point_def scast_word_of_int_32)
  then show ?thesis unfolding P_def .
qed

lemma pre_increment_zero:
  "fp_scale x = 0 \<Longrightarrow>
     pre_increment Rad x = Inr \<lparr>fp_value = fp_value x + 1, fp_scale = fp_scale x\<rparr>"
  by (simp add: pre_increment_def make_one_zero op_plus_same_scale)

lemma pre_increment_pos:
  "0 <s fp_scale x \<Longrightarrow>
     pre_increment Rad x = Inr \<lparr>fp_value = fp_value x, fp_scale = fp_scale x\<rparr>"
  by (simp add: pre_increment_def make_one_pos op_plus_same_scale)

lemma pre_increment_neg:
  "fp_scale x <s 0 \<Longrightarrow> radix_int Rad ^ nat (- sint (fp_scale x)) < 2 ^ 31 \<Longrightarrow>
     pre_increment Rad x = Inr \<lparr>fp_value = fp_value x +
        word_of_int (radix_int Rad ^ nat (- sint (fp_scale x))), fp_scale = fp_scale x\<rparr>"
  by (simp add: pre_increment_def make_one_neg op_plus_same_scale)

text \<open>
  Claim C7 does not hold as stated: \<^verbatim>\<open>++x\<close> adds \<^verbatim>\<open>fixed_point{1, scale}\<close>, built by the
  constructor from a scalar, which shifts the number 1 to the scale of \<open>x\<close>. At scale \<open>-2\<close>
  in base 10 the value 5 becomes 105, not 6; at scale \<open>2\<close> it stays 5.
\<close>

theorem pre_increment_counterexample:
  "pre_increment BASE_10 \<lparr>fp_value = 5 :: 32 word, fp_scale = - 2\<rparr>
     = Inr \<lparr>fp_value = 105, fp_scale = - 2\<rparr> \<and>
   (105 :: 32 word) \<noteq> 5 + 1 \<and>
   pre_increment BASE_10 \<lparr>fp_value = 5 :: 32 word, fp_scale = 2\<rparr>
     = Inr \<lparr>fp_value = 5, fp_scale = 2\<rparr> \<and>
   (5 :: 32 word) \<noteq> 5 + 1"
  using pre_increment_neg[of "\<lparr>fp_value = 5 :: 32 word, fp_scale = - 2\<rparr>" BASE_10]
    pre_increment_pos[of "\<lparr>fp_value = 5 :: 32 word, fp_scale = 2\<rparr>" BASE_10]
  by (simp add: word_sless_alt)

text \<open>
  Claim C7, amended. After \<^verbatim>\<open>++x\<close> the scale is unchanged and the representation value
  has increased by the number 1 at the scale of \<open>x\<close>: by 1 when the scale is 0, by \<open>R\<^bsup>-scale\<^esup>\<close>
  when the scale is negative and that power is an \<^verbatim>\<open>int\<close> (beyond, the cast of the
  shifted 1 is undefined), and by 0 when the scale is positive (\<open>1 / R\<^bsup>scale\<^esup>\<close> truncates
  to 0).
\<close>

theorem pre_increment_adds_scaled_one:
  fixes x :: "'r::len word fixed_point"
  shows "(fp_scale x = 0 \<longrightarrow>
            pre_increment Rad x = Inr \<lparr>fp_value = fp_value x + 1, fp_scale = fp_scale x\<rparr>) \<and>
         (0 <s fp_scale x \<longrightarrow>
            pre_increment Rad x = Inr \<lparr>fp_value = fp_value x, fp_scale = fp_scale x\<rparr>) \<and>
         (fp_scale x <s 0 \<and> radix_int Rad ^ nat (- sint (fp_scale x)) < 2 ^ 31 \<longrightarrow>
            pre_increment Rad x = Inr \<lparr>fp_value = fp_value x +
              word_of_int (radix_int Rad ^ nat (- sint (fp_scale x))), fp_scale = fp_scale x\<rparr>)"
  using pre_increment_zero[of x Rad] pre_increment_pos[of x Rad] pre_increment_neg[of x Rad]
  by blast

theorem pre_increment_adds_scaled_one_witness:
  "pre_increment BASE_2 \<lparr>fp_value = 7 :: 64 word, fp_scale = 0\<rparr>
     = Inr \<lparr>fp_value = 8, fp_scale = 0\<rparr> \<and>
   (0 :: 32 word) <s 3 \<and>
   pre_increment BASE_2 \<lparr>fp_value = 7 :: 64 word, fp_scale = 3\<rparr>
     = Inr \<lparr>fp_value = 7, fp_scale = 3\<rparr> \<and>
   (- 3 :: 32 word) <s 0 \<and> radix_int BASE_2 ^ nat (- sint (- 3 :: 32 word)) < 2 ^ 31 \<and>
   pre_increment BASE_2 \<lparr>fp_value = 7 :: 64 word, fp_scale = - 3\<rparr>
     = Inr \<lparr>fp_value = 15, fp_scale = - 3\<rparr>"
  using pre_increment_adds_scaled_one[of "\<lparr>fp_value = 7 :: 64 word, fp_scale = 0\<rparr>" BASE_2]
    pre_increment_adds_scaled_one[of "\<lparr>fp_value = 7 :: 64 word, fp_scale = 3\<rparr>" BASE_2]
    pre_increment_adds_scaled_one[of "\<lparr>fp_value = 7 :: 64 word, fp_scale = - 3\<rparr>" BASE_2]
  by (simp add: word_sless_alt)

section \<open>Construction and conversion\<close>

lemma radix_power_le:
  assumes "k \<le> 9"
  shows "radix_int Rad ^ k \<le> 10 ^ 9"
proof -
  have "radix_int Rad \<le> 10" by (cases Rad) simp_all
  then have "radix_int Rad ^ k \<le> 10 ^ k" using radix_int_ge2[of Rad] by (intro power_mono) simp_all
  also have "(10::int) ^ k \<le> 10 ^ 9" using assms by (intro power_increasing) simp_all
  finally show ?thesis .
qed

lemma radix_power_small: "k \<le> 9 \<Longrightarrow> radix_int Rad ^ k < 2 ^ 53"
  using radix_power_le[of k Rad] by simp

lemma sdiv_mult_abs_le:
  assumes p: "0 < p"
  shows "\<bar>(v::int) sdiv p * p\<bar> \<le> \<bar>v\<bar>"
proof -
  have m: "\<bar>v\<bar> = \<bar>v\<bar> div p * p + \<bar>v\<bar> mod p" by simp
  have "0 \<le> \<bar>v\<bar> mod p" using p by simp
  then have "\<bar>v\<bar> div p * p \<le> \<bar>v\<bar>" using m by linarith
  moreover have "0 \<le> \<bar>v\<bar> div p" using p by (simp add: pos_imp_zdiv_nonneg_iff)
  moreover have "\<bar>v sdiv p\<bar> = \<bar>v\<bar> div p"
    using p \<open>0 \<le> \<bar>v\<bar> div p\<close> by (simp add: signed_divide_int_def abs_mult sgn_if)
  ultimately show ?thesis using p by (simp add: abs_mult)
qed

lemma round_trip_integral:
  fixes y :: "'r::len word"
  shows "(make_fixed_point Rad y 0 :: error + 'r word fixed_point) = Inr \<lparr>fp_value = y, fp_scale = 0\<rparr>"
    and "(to_integral Rad \<lparr>fp_value = y, fp_scale = 0\<rparr> :: error + 'r word) = Inr y"
  by (simp_all add: make_fixed_point_def to_integral_def shift_def negate_def)

lemma construct_nonpos:
  fixes v :: "'r::len word"
  assumes s: "- 9 \<le> sint s" "sint s \<le> 0"
    and v: "\<bar>sint v\<bar> * radix_int Rad ^ nat (- sint s) < 2 ^ 53"
    and f: "fits LENGTH('r) (sint v * radix_int Rad ^ nat (- sint s))"
  shows "(make_fixed_point Rad v s :: error + 'r word fixed_point)
      = Inr \<lparr>fp_value = word_of_int (sint v * radix_int Rad ^ nat (- sint s)), fp_scale = s\<rparr>"
proof (cases "s = 0")
  case True
  then show ?thesis by (simp add: make_fixed_point_def shift_def)
next
  case False
  then have "sint s \<noteq> 0" by (simp add: sint_zero_iff)
  then have lt: "s <s 0" using s(2) by (simp add: word_sless_alt)
  have p: "radix_int Rad ^ nat (- sint s) < 2 ^ 53" using s(1) by (intro radix_power_small) simp
  show ?thesis unfolding make_fixed_point_def shift_left_exact[OF lt p v f] by simp
qed

lemma convert_nonpos:
  fixes v :: "'r::len word"
  assumes s: "- 9 \<le> sint s" "sint s \<le> 0"
    and v: "\<bar>sint v\<bar> * radix_int Rad ^ nat (- sint s) < 2 ^ 53"
    and f: "fits LENGTH('r) (sint v * radix_int Rad ^ nat (- sint s))"
  shows "to_double Rad \<lparr>fp_value = (word_of_int (sint v * radix_int Rad ^ nat (- sint s)) :: 'r word),
      fp_scale = s\<rparr> = Inr (Finite (of_int (sint v)))"
proof -
  define P where "P = radix_int Rad ^ nat (- sint s)"
  define w :: "'r word" where "w = word_of_int (sint v * P)"
  have P1: "1 \<le> P" unfolding P_def using radix_int_ge2[of Rad] by simp
  have sw: "sint w = sint v * P" unfolding w_def using f
    by (intro sint_word_of_int_range) (simp_all add: fits_def P_def)
  have big: "\<bar>sint v * P\<bar> < 2 ^ 53" using v P1 by (simp add: abs_mult P_def)
  have "\<bar>sint v\<bar> * 1 \<le> \<bar>sint v\<bar> * P" using P1 by (intro mult_left_mono) simp_all
  then have small: "\<bar>sint v\<bar> < 2 ^ 53" using v by (simp add: P_def)
  have iw: "int_to_double w = Finite (of_int (sint v * P))"
    using int_to_double_exact[of w] big by (simp only: sw)
  have "to_double Rad \<lparr>fp_value = w, fp_scale = s\<rparr> = Inr (Finite (of_int (sint v)))"
  proof (cases "s = 0")
    case True
    then have "P = 1" by (simp add: P_def)
    then have "w = v" by (simp add: w_def)
    then show ?thesis using True int_to_double_exact[OF small]
      by (simp add: to_double_def negate_def shift_fp_def)
  next
    case False
    then have s0: "sint s < 0" using s(2) by (simp add: sint_zero_iff less_le)
    have n: "sint (negate s) = - sint s" using s(1) by (intro sint_negate) simp
    have np: "0 <s negate s" "negate s \<noteq> 0" using s0 n by (auto simp: word_sless_alt)
    have "radix_int Rad ^ nat (sint (negate s)) < 2 ^ 53"
      using s(1) unfolding n by (intro radix_power_small) simp
    then have pw: "std_pow Rad (negate s) = Finite (of_int P)"
      using std_pow_exact[of "negate s" Rad] s0 by (simp add: n P_def)
    have "rat_of_int (sint v * P) / of_int P = of_int (sint v)" using P1 by simp
    then have "double_div (Finite (of_int (sint v * P))) (Finite (of_int P))
        = round_to_double (of_int (sint v))"
      using P1 by (simp del: of_int_mult of_int_sint)
    also have "\<dots> = Finite (of_int (sint v))" using small by (rule rtd_int)
    finally show ?thesis using np
      by (simp add: to_double_def shift_fp_def right_shift_fp_def iw pw
          del: of_int_mult of_int_sint)
  qed
  then show ?thesis unfolding w_def P_def .
qed

lemma round_trip_pos:
  fixes v :: "'r::len word"
  assumes s: "0 < sint s" "sint s \<le> 9" and v: "\<bar>sint v\<bar> < 2 ^ 53"
  shows "\<exists>x. (make_fixed_point Rad v s :: error + 'r word fixed_point) = Inr x \<and>
           fp_scale x = s \<and>
           sint (fp_value x) = sint v sdiv radix_int Rad ^ nat (sint s) \<and>
           to_double Rad x = Inr (Finite (of_int
             (sint v sdiv radix_int Rad ^ nat (sint s) * radix_int Rad ^ nat (sint s))))"
proof -
  define P where "P = radix_int Rad ^ nat (sint s)"
  define t where "t = sint v sdiv P"
  have P1: "0 < P" unfolding P_def using radix_int_ge2[of Rad] by simp
  have P53: "radix_int Rad ^ nat (sint s) < 2 ^ 53" using s(2) by (intro radix_power_small) simp
  have lt: "0 <s s" using s(1) by (simp add: word_sless_alt)
  obtain w where w: "shift Rad v s = Inr w" "sint w = t"
    using shift_right_trunc[OF lt v, of Rad] unfolding t_def P_def by blast
  have tp: "\<bar>t * P\<bar> \<le> \<bar>sint v\<bar>" unfolding t_def using P1 by (rule sdiv_mult_abs_le)
  have "\<bar>t\<bar> * 1 \<le> \<bar>t\<bar> * P" using P1 by (intro mult_left_mono) simp_all
  then have "\<bar>t\<bar> \<le> \<bar>t * P\<bar>" using P1 by (simp add: abs_mult)
  then have tb: "\<bar>sint w\<bar> < 2 ^ 53" using tp v w(2) by simp
  have iw: "int_to_double w = Finite (of_int t)"
    using int_to_double_exact[OF tb] by (simp only: w(2))
  have n: "sint (negate s) = - sint s" using s(1) by (intro sint_negate) simp
  have np: "negate s <s 0" "negate s \<noteq> 0" "\<not> 0 <s negate s"
    using s(1) n by (auto simp: word_sless_alt)
  have nn: "negate (negate s) = s" by (simp add: negate_def)
  have pw: "std_pow Rad s = Finite (of_int P)"
    using std_pow_exact[of s Rad] s(1) P53 by (simp add: P_def)
  have "\<bar>t * P\<bar> < 2 ^ 53" using tp v by simp
  then have "round_to_double (of_int (t * P)) = Finite (of_int (t * P))" by (rule rtd_int)
  then have dm: "round_to_double (rat_of_int t * rat_of_int P) = Finite (of_int (t * P))"
    by simp
  have td: "to_double Rad \<lparr>fp_value = w, fp_scale = s\<rparr> = Inr (Finite (of_int (t * P)))"
    using np by (simp add: to_double_def shift_fp_def left_shift_fp_def nn iw pw dm
        del: of_int_mult)
  have mk: "(make_fixed_point Rad v s :: error + 'r word fixed_point)
      = Inr \<lparr>fp_value = w, fp_scale = s\<rparr>"
    by (simp add: make_fixed_point_def w(1))
  show ?thesis using mk td w(2) unfolding t_def P_def by simp
qed

lemma round_trip_nonpos:
  fixes v :: "'r::len word"
  assumes s: "- 9 \<le> sint s" "sint s \<le> 0"
    and v: "\<bar>sint v\<bar> * radix_int Rad ^ nat (- sint s) < 2 ^ 53"
    and f: "fits LENGTH('r) (sint v * radix_int Rad ^ nat (- sint s))"
  shows "\<exists>x. (make_fixed_point Rad v s :: error + 'r word fixed_point) = Inr x \<and>
           fp_scale x = s \<and>
           sint (fp_value x) = sint v * radix_int Rad ^ nat (- sint s) \<and>
           to_double Rad x = Inr (Finite (of_int (sint v)))"
proof -
  have "sint (word_of_int (sint v * radix_int Rad ^ nat (- sint s)) :: 'r word)
      = sint v * radix_int Rad ^ nat (- sint s)"
    using f by (intro sint_word_of_int_range) (simp_all add: fits_def)
  then show ?thesis
    using construct_nonpos[OF s v f] convert_nonpos[OF s v f] by simp
qed

lemma ulp_half: "ulp (1 / 2) = 2 powi (- 53)"
proof -
  have "ilog2 (1 / 2) = - 1" by (rule ilog2_unique) (simp_all add: power_int_minus)
  then show ?thesis by (simp add: ulp_def double_exponent_def)
qed

text \<open>
  Claim C5 does not hold as stated: the constructor from a scalar shifts the scalar, so the
  value it builds denotes the scalar itself and the conversion to \<^verbatim>\<open>double\<close> returns the
  scalar, not the scalar times \<open>R\<^sup>s\<close>. \<^verbatim>\<open>FixedPoint(5, scale=-1)\<close> in base 10 has the
  representation value 50 and converts to \<open>5.0\<close>, which is further from \<open>5 \<times> 10\<^sup>-\<^sup>1 = 0.5\<close>
  than one unit in the last place.
\<close>

theorem round_trip_counterexample:
  "(make_fixed_point BASE_10 (5 :: 32 word) (- 1) :: error + 32 word fixed_point)
     = Inr \<lparr>fp_value = 50, fp_scale = - 1\<rparr> \<and>
   to_double BASE_10 \<lparr>fp_value = 50 :: 32 word, fp_scale = - 1\<rparr> = Inr (Finite 5) \<and>
   ulp (5 * 10 powi (- 1)) < \<bar>5 - 5 * 10 powi (- 1)\<bar>"
proof (intro conjI)
  have s: "- 9 \<le> sint (- 1 :: 32 word)" "sint (- 1 :: 32 word) \<le> 0" by simp_all
  have v: "\<bar>sint (5 :: 32 word)\<bar> * radix_int BASE_10 ^ nat (- sint (- 1 :: 32 word)) < 2 ^ 53"
    by simp
  have f: "fits LENGTH(32) (sint (5 :: 32 word) * radix_int BASE_10 ^ nat (- sint (- 1 :: 32 word)))"
    by (simp add: fits_def)
  show "(make_fixed_point BASE_10 (5 :: 32 word) (- 1) :: error + 32 word fixed_point)
     = Inr \<lparr>fp_value = 50, fp_scale = - 1\<rparr>"
    using construct_nonpos[OF s v f] by simp
  show "to_double BASE_10 \<lparr>fp_value = 50 :: 32 word, fp_scale = - 1\<rparr> = Inr (Finite 5)"
    using convert_nonpos[OF s v f] by simp
  have "(5 :: rat) * 10 powi (- 1) = 1 / 2" by (simp add: power_int_minus)
  then show "ulp (5 * 10 powi (- 1)) < \<bar>5 - 5 * 10 powi (- 1)\<bar>"
    by (simp add: ulp_half power_int_minus)
qed

text \<open>
  Claim C5, amended. For every integer \<open>z\<close> and exponent \<open>k\<close> with \<open>z \<times> R\<^sup>k\<close> a value of
  \<^verbatim>\<open>Rep\<close>, \<^verbatim>\<open>FixedPoint(z \<times> R\<^sup>k, scale=0)\<close> converted back to \<^verbatim>\<open>Rep\<close> is exactly
  \<open>z \<times> R\<^sup>k\<close>. For a scalar \<open>v\<close> of type \<^verbatim>\<open>Rep\<close> below \<open>2 ^ 53\<close> in magnitude and a scale
  \<open>s\<close> in \<open>[-9, 9]\<close>, converting \<^verbatim>\<open>FixedPoint(v, s)\<close> to \<^verbatim>\<open>double\<close> yields exactly \<open>v\<close>
  when \<open>s \<le> 0\<close> (provided \<open>v \<times> R\<^bsup>-s\<^esup>\<close> is a value of \<^verbatim>\<open>Rep\<close> below \<open>2 ^ 53\<close> in
  magnitude), and exactly \<open>(v / R\<^sup>s) \<times> R\<^sup>s\<close>, with the division truncated towards zero,
  when \<open>s > 0\<close>.
\<close>

theorem construction_round_trip:
  fixes v :: "'r::len word"
  shows "(fits LENGTH('r) (z * radix_int Rad ^ k) \<longrightarrow>
           (\<exists>x u. (make_fixed_point Rad (word_of_int (z * radix_int Rad ^ k) :: 'r word) 0
                     :: error + 'r word fixed_point) = Inr x \<and>
              (to_integral Rad x :: error + 'r word) = Inr u \<and>
              sint u = z * radix_int Rad ^ k)) \<and>
         (- 9 \<le> sint s \<and> sint s \<le> 0 \<and>
          \<bar>sint v\<bar> * radix_int Rad ^ nat (- sint s) < 2 ^ 53 \<and>
          fits LENGTH('r) (sint v * radix_int Rad ^ nat (- sint s)) \<longrightarrow>
           (\<exists>x. (make_fixed_point Rad v s :: error + 'r word fixed_point) = Inr x \<and>
              fp_scale x = s \<and>
              sint (fp_value x) = sint v * radix_int Rad ^ nat (- sint s) \<and>
              to_double Rad x = Inr (Finite (of_int (sint v))))) \<and>
         (0 < sint s \<and> sint s \<le> 9 \<and> \<bar>sint v\<bar> < 2 ^ 53 \<longrightarrow>
           (\<exists>x. (make_fixed_point Rad v s :: error + 'r word fixed_point) = Inr x \<and>
              fp_scale x = s \<and>
              sint (fp_value x) = sint v sdiv radix_int Rad ^ nat (sint s) \<and>
              to_double Rad x = Inr (Finite (of_int
                (sint v sdiv radix_int Rad ^ nat (sint s) * radix_int Rad ^ nat (sint s))))))"
proof (intro conjI impI)
  assume f: "fits LENGTH('r) (z * radix_int Rad ^ k)"
  define y :: "'r word" where "y = word_of_int (z * radix_int Rad ^ k)"
  have "sint y = z * radix_int Rad ^ k"
    unfolding y_def using f by (intro sint_word_of_int_range) (simp_all add: fits_def)
  then have "\<exists>x u. (make_fixed_point Rad y 0 :: error + 'r word fixed_point) = Inr x \<and>
      (to_integral Rad x :: error + 'r word) = Inr u \<and> sint u = z * radix_int Rad ^ k"
    using round_trip_integral[of Rad y] by simp
  then show "\<exists>x u. (make_fixed_point Rad (word_of_int (z * radix_int Rad ^ k) :: 'r word) 0
                     :: error + 'r word fixed_point) = Inr x \<and>
              (to_integral Rad x :: error + 'r word) = Inr u \<and>
              sint u = z * radix_int Rad ^ k"
    unfolding y_def .
next
  assume "- 9 \<le> sint s \<and> sint s \<le> 0 \<and>
          \<bar>sint v\<bar> * radix_int Rad ^ nat (- sint s) < 2 ^ 53 \<and>
          fits LENGTH('r) (sint v * radix_int Rad ^ nat (- sint s))"
  then show "\<exists>x. (make_fixed_point Rad v s :: error + 'r word fixed_point) = Inr x \<and>
              fp_scale x = s \<and>
              sint (fp_value x) = sint v * radix_int Rad ^ nat (- sint s) \<and>
              to_double Rad x = Inr (Finite (of_int (sint v)))"
    by (intro round_trip_nonpos) simp_all
next
  assume "0 < sint s \<and> sint s \<le> 9 \<and> \<bar>sint v\<bar> < 2 ^ 53"
  then show "\<exists>x. (make_fixed_point Rad v s :: error + 'r word fixed_point) = Inr x \<and>
              fp_scale x = s \<and>
              sint (fp_value x) = sint v sdiv radix_int Rad ^ nat (sint s) \<and>
              to_double Rad x = Inr (Finite (of_int
                (sint v sdiv radix_int Rad ^ nat (sint s) * radix_int Rad ^ nat (sint s))))"
    by (intro round_trip_pos) simp_all
qed

theorem construction_round_trip_witness:
  "fits LENGTH(32) (7 * radix_int BASE_10 ^ 2) \<and>
   (\<exists>x u. (make_fixed_point BASE_10 (word_of_int (7 * radix_int BASE_10 ^ 2) :: 32 word) 0
             :: error + 32 word fixed_point) = Inr x \<and>
      (to_integral BASE_10 x :: error + 32 word) = Inr u \<and> sint u = 700) \<and>
   - 9 \<le> sint (- 2 :: 32 word) \<and> sint (- 2 :: 32 word) \<le> 0 \<and>
   \<bar>sint (5 :: 32 word)\<bar> * radix_int BASE_10 ^ nat (- sint (- 2 :: 32 word)) < 2 ^ 53 \<and>
   fits LENGTH(32) (sint (5 :: 32 word) * radix_int BASE_10 ^ nat (- sint (- 2 :: 32 word))) \<and>
   (\<exists>x. (make_fixed_point BASE_10 (5 :: 32 word) (- 2) :: error + 32 word fixed_point) = Inr x \<and>
      sint (fp_value x) = 500 \<and> to_double BASE_10 x = Inr (Finite 5)) \<and>
   0 < sint (1 :: 32 word) \<and> sint (1 :: 32 word) \<le> 9 \<and> \<bar>sint (123 :: 32 word)\<bar> < 2 ^ 53 \<and>
   (\<exists>x. (make_fixed_point BASE_10 (123 :: 32 word) 1 :: error + 32 word fixed_point) = Inr x \<and>
      sint (fp_value x) = 12 \<and> to_double BASE_10 x = Inr (Finite 120))"
proof -
  have h1: "fits LENGTH(32) (7 * radix_int BASE_10 ^ 2)" by (simp add: fits_def)
  have h2: "- 9 \<le> sint (- 2 :: 32 word) \<and> sint (- 2 :: 32 word) \<le> 0 \<and>
     \<bar>sint (5 :: 32 word)\<bar> * radix_int BASE_10 ^ nat (- sint (- 2 :: 32 word)) < 2 ^ 53 \<and>
     fits LENGTH(32) (sint (5 :: 32 word) * radix_int BASE_10 ^ nat (- sint (- 2 :: 32 word)))"
    by (simp add: fits_def)
  have h3: "0 < sint (1 :: 32 word) \<and> sint (1 :: 32 word) \<le> 9 \<and> \<bar>sint (123 :: 32 word)\<bar> < 2 ^ 53"
    by simp
  have q: "(123 :: int) sdiv 10 = 12" by (simp add: signed_divide_int_def)
  note a = construction_round_trip[where 'r = 32 and z = 7 and k = 2 and Rad = BASE_10,
      THEN conjunct1, THEN mp, OF h1]
  note b = construction_round_trip[where 'r = 32 and v = 5 and s = "- 2" and Rad = BASE_10,
      THEN conjunct2, THEN conjunct1, THEN mp, OF h2]
  note c = construction_round_trip[where 'r = 32 and v = 123 and s = 1 and Rad = BASE_10,
      THEN conjunct2, THEN conjunct2, THEN mp, OF h3]
  have a': "\<exists>x u. (make_fixed_point BASE_10 (word_of_int (7 * radix_int BASE_10 ^ 2) :: 32 word) 0
             :: error + 32 word fixed_point) = Inr x \<and>
      (to_integral BASE_10 x :: error + 32 word) = Inr u \<and> sint u = 700"
    using a by auto
  have b': "\<exists>x. (make_fixed_point BASE_10 (5 :: 32 word) (- 2) :: error + 32 word fixed_point) = Inr x \<and>
      sint (fp_value x) = 500 \<and> to_double BASE_10 x = Inr (Finite 5)"
    using b by auto
  have c': "\<exists>x. (make_fixed_point BASE_10 (123 :: 32 word) 1 :: error + 32 word fixed_point) = Inr x \<and>
      sint (fp_value x) = 12 \<and> to_double BASE_10 x = Inr (Finite 120)"
    using c q by auto
  show ?thesis using h1 h2 h3 a' b' c' by blast
qed

end
